theory Spec2Isabelle
  imports Complex_Main "HOL-Library.Multiset"
begin

section \<open>Blackjack table: the round engine of App.jsx\<close>

text \<open>
  The development follows the component \<open>App\<close> of \<open>src/App.jsx\<close>. A second source file
  holds the same handlers with English messages and two more fields per player,
  \<open>roundStartChips\<close> and \<open>delta\<close>; the model keeps both fields (without them a handler
  behaves the same on every other field) and takes the messages from that file. The third
  file differs in its lobby and in how a bet is entered; its round engine is the same.

  Conventions of the embedding:
  \<^item> a JavaScript number holding chips, a bet or the pot is a \<open>rat\<close>: sums, differences
    and the products by 2, 2.5 and 1.5 are taken exactly, as doubles do on the dyadic
    values of a table; the one quotient, the share of the pot, is taken exactly and rounded
    at once; \<open>Math.round x\<close> is \<open>\<lfloor>x + 1/2\<rfloor>\<close>;
  \<^item> card values and hand totals are \<open>int\<close>;
  \<^item> \<open>undefined\<close>, as returned by \<open>pop\<close> on an empty array, is \<open>None\<close>;
  \<^item> React state is a record, and a handler is a function from the state it closes over
    (plus the random choices it consumes) to the state after all its \<open>set\<close> calls;
  \<^item> reading a field of \<open>undefined\<close> throws \<open>TypeError\<close>: a handler that puts an
    undefined card into a hand returns \<open>Inl TypeError\<close>, since either the handler itself
    or the render that follows reads that card;
  \<^item> the \<open>set\<close> calls a handler has made before it throws are applied all the same:
    \<open>commitStep\<close> gives the state of the render after a button press, thrown or not.
\<close>

subsection \<open>Cards and the deck\<close>

text \<open>The four suits are the symbols of \<open>SUITS\<close>, in its order: spades, hearts, diamonds, clubs.\<close>

datatype suit = Spades | Hearts | Diamonds | Clubs

record card =
  suit :: suit
  rank :: string
  cvalue :: int

definition SUITS :: "suit list" where
  "SUITS = [Spades, Hearts, Diamonds, Clubs]"

definition RANKS :: "string list" where
  "RANKS = [''A'', ''2'', ''3'', ''4'', ''5'', ''6''] @ [''7'', ''8'', ''9'', ''10'', ''J'', ''Q'', ''K'']"

definition STARTING_CHIPS :: rat where
  "STARTING_CHIPS = 1000"

definition CHIP_VALUES :: "rat list" where
  "CHIP_VALUES = [10, 25, 50, 100, 250, 500]"

text \<open>\<open>Number(rank)\<close> on a string of decimal digits (the only strings it is applied to).\<close>

definition digitVal :: "char \<Rightarrow> int" where
  "digitVal c = int (of_char c) - 48"

definition Number :: "string \<Rightarrow> int" where
  "Number s = foldl (\<lambda>n c. 10 * n + digitVal c) 0 s"

definition rankValue :: "string \<Rightarrow> int" where
  "rankValue r = (if r = ''A'' then 11 else if r \<in> set [''J'', ''Q'', ''K''] then 10 else Number r)"

definition mkCard :: "suit \<Rightarrow> string \<Rightarrow> card" where
  "mkCard s r = \<lparr>suit = s, rank = r, cvalue = rankValue r\<rparr>"

definition createDeck :: "card list" where
  "createDeck = concat (map (\<lambda>s. map (\<lambda>r. mkCard s r) RANKS) SUITS)"

text \<open>
  Fisher-Yates. \<open>rnd i mod (i + 1)\<close> stands for \<open>Math.floor(Math.random() * (i + 1))\<close> at
  loop index \<open>i\<close>: some index between \<open>0\<close> and \<open>i\<close>.
\<close>

fun shuffleFrom :: "(nat \<Rightarrow> nat) \<Rightarrow> nat \<Rightarrow> card list \<Rightarrow> card list" where
  "shuffleFrom rnd 0 deck = deck"
| "shuffleFrom rnd (Suc i) deck =
     (let j = rnd (Suc i) mod (Suc i + 1)
      in shuffleFrom rnd i (deck[Suc i := deck ! j, j := deck ! Suc i]))"

definition shuffle :: "(nat \<Rightarrow> nat) \<Rightarrow> card list \<Rightarrow> card list" where
  "shuffle rnd cards = shuffleFrom rnd (length cards - 1) cards"

text \<open>\<open>drawCard\<close> copies the deck and pops: the pair is \<open>(card, next)\<close>.\<close>

definition drawCard :: "card list \<Rightarrow> card option \<times> card list" where
  "drawCard deck = (case rev deck of [] \<Rightarrow> (None, []) | c # rest \<Rightarrow> (Some c, rev rest))"

subsection \<open>Hand evaluation\<close>

text \<open>The \<open>while (total > 21 && aces > 0)\<close> loop, by recursion on \<open>aces\<close>.\<close>

fun reduceAces :: "int \<Rightarrow> nat \<Rightarrow> int" where
  "reduceAces tot 0 = tot"
| "reduceAces tot (Suc aces) = (if tot > 21 then reduceAces (tot - 10) aces else tot)"

definition calculateHand :: "card list \<Rightarrow> int" where
  "calculateHand hand =
     reduceAces (foldl (\<lambda>sum c. sum + cvalue c) 0 hand)
                (length (filter (\<lambda>c. rank c = ''A'') hand))"

definition isBlackjack :: "card list \<Rightarrow> bool" where
  "isBlackjack hand \<longleftrightarrow> length hand = 2 \<and> calculateHand hand = 21"

text \<open>The table of nominal values as the specification words it.\<close>

definition nominalValue :: "string \<Rightarrow> int" where
  "nominalValue r =
     (if r = ''A'' then 11
      else if r = ''K'' \<or> r = ''Q'' \<or> r = ''J'' \<or> r = ''10'' then 10
      else if r = ''9'' then 9 else if r = ''8'' then 8 else if r = ''7'' then 7
      else if r = ''6'' then 6 else if r = ''5'' then 5 else if r = ''4'' then 4
      else if r = ''3'' then 3 else if r = ''2'' then 2 else 0)"

definition nominalTotal :: "card list \<Rightarrow> int" where
  "nominalTotal hand = sum_list (map (\<lambda>c. nominalValue (rank c)) hand)"

definition aceCount :: "card list \<Rightarrow> nat" where
  "aceCount hand = length (filter (\<lambda>c. rank c = ''A'') hand)"

subsection \<open>Players, dealer and the table state\<close>

datatype status = Idle | Active | Stand | Bust | Blackjack

text \<open>The result strings: \<open>""\<close>, \<open>"win"\<close>, \<open>"lose"\<close>, \<open>"push"\<close>, \<open>"blackjack"\<close>.\<close>

datatype result = NoResult | Win | Lose | Push | BlackjackResult

record player =
  pid :: nat
  name :: string
  chips :: rat
  roundStartChips :: rat
  bet :: rat
  hand :: "card list"
  status :: status
  result :: result
  delta :: rat

record dealer =
  dhand :: "card list"
  hidden :: bool

datatype screen = Lobby | Table

text \<open>The phase strings \<open>"betting"\<close>, \<open>"playing"\<close> (the active turns) and \<open>"roundEnd"\<close>.\<close>

datatype phase = Betting | Playing | RoundEnd

record state =
  screen :: screen
  phase :: phase
  playerCount :: nat
  players :: "player list"
  dealer :: dealer
  deck :: "card list"
  currentIndex :: nat
  betIndex :: nat
  message :: string
  roundNo :: nat
  pot :: rat

datatype error = TypeError

definition emptyDealer :: dealer where
  "emptyDealer = \<lparr>dhand = [], hidden = True\<rparr>"

definition isMulti :: "state \<Rightarrow> bool" where
  "isMulti s \<longleftrightarrow> playerCount s > 1"

text \<open>\<open>array.map((element, idx) => ...)\<close>.\<close>

definition mapIdx :: "('a \<Rightarrow> nat \<Rightarrow> 'b) \<Rightarrow> 'a list \<Rightarrow> 'b list" where
  "mapIdx f xs = map (\<lambda>(idx, x). f x idx) (enumerate 0 xs)"

text \<open>
  The scan of \<open>nextActiveIndex\<close> from loop index \<open>i\<close>. Its callers pass \<open>-1\<close> or the
  current index as \<open>fromIndex\<close>, so the first index read is never negative.
\<close>

function scanActive :: "player list \<Rightarrow> nat \<Rightarrow> int" where
  "scanActive ps i =
     (if i < length ps
      then (if status (ps ! i) = Active then int i else scanActive ps (Suc i))
      else - 1)"
  by pat_completeness auto
termination
  by (relation "measure (\<lambda>(ps, i). length ps - i)") auto

declare scanActive.simps [simp del]

definition nextActiveIndex :: "player list \<Rightarrow> int \<Rightarrow> int" where
  "nextActiveIndex ps fromIndex = scanActive ps (nat (fromIndex + 1))"

fun showNat :: "nat \<Rightarrow> string" where
  "showNat n =
     (if n < 10 then [char_of (48 + n)] else showNat (n div 10) @ [char_of (48 + n mod 10)])"

declare showNat.simps [simp del]

definition buildPlayers :: "nat \<Rightarrow> player list \<Rightarrow> player list" where
  "buildPlayers cnt existing =
     map (\<lambda>index.
            \<lparr>pid = index + 1,
             name = ''Player '' @ showNat (index + 1),
             chips = (if index < length existing then chips (existing ! index) else STARTING_CHIPS),
             roundStartChips =
               (if index < length existing then roundStartChips (existing ! index)
                else STARTING_CHIPS),
             bet = 0, hand = [], status = Idle, result = NoResult, delta = 0\<rparr>)
         [0..<cnt]"

definition handleLobbyStart :: "state \<Rightarrow> state" where
  "handleLobbyStart s =
     s\<lparr>players := buildPlayers (playerCount s) [],
       dealer := emptyDealer,
       phase := Betting,
       screen := Table,
       roundNo := 1,
       pot := 0,
       betIndex := 0,
       message := ''Select chips and press Deal to start the round.''\<rparr>"

subsection \<open>Dealing\<close>

definition ensureDeck :: "(nat \<Rightarrow> nat) \<Rightarrow> card list \<Rightarrow> card list" where
  "ensureDeck rnd current = (if length current < 15 then shuffle rnd createDeck else current)"

text \<open>
  One pass of the inner loop of \<open>dealInitial\<close>: every player, in seat order, draws one
  card and pushes it onto the own hand.
\<close>

fun dealPlayers :: "card list \<Rightarrow> player list \<Rightarrow> error + (card list \<times> player list)" where
  "dealPlayers dk [] = Inr (dk, [])"
| "dealPlayers dk (p # ps) =
     (case drawCard dk of
        (None, _) \<Rightarrow> Inl TypeError
      | (Some c, next) \<Rightarrow>
          (case dealPlayers next ps of
             Inl e \<Rightarrow> Inl e
           | Inr (dk', ps') \<Rightarrow> Inr (dk', p\<lparr>hand := hand p @ [c]\<rparr> # ps')))"

text \<open>One pass of the outer loop: the players, then the dealer.\<close>

definition dealRound ::
  "card list \<Rightarrow> player list \<Rightarrow> dealer \<Rightarrow> error + (card list \<times> player list \<times> dealer)" where
  "dealRound dk ps d =
     (case dealPlayers dk ps of
        Inl e \<Rightarrow> Inl e
      | Inr (dk1, ps1) \<Rightarrow>
          (case drawCard dk1 of
             (None, _) \<Rightarrow> Inl TypeError
           | (Some c, next) \<Rightarrow> Inr (next, ps1, d\<lparr>dhand := dhand d @ [c]\<rparr>)))"

definition dealInitial ::
  "(nat \<Rightarrow> nat) \<Rightarrow> card list \<Rightarrow> player list \<Rightarrow> error + (card list \<times> player list \<times> dealer)" where
  "dealInitial rnd preparedDeck preparedPlayers =
     (let nextDeck = ensureDeck rnd preparedDeck;
          dealtPlayers = map (\<lambda>p. p\<lparr>hand := [], status := Active, result := NoResult\<rparr>)
                             preparedPlayers;
          nextDealer = \<lparr>dhand = [], hidden = True\<rparr>
      in case dealRound nextDeck dealtPlayers nextDealer of
           Inl e \<Rightarrow> Inl e
         | Inr (deck1, players1, dealer1) \<Rightarrow>
             (case dealRound deck1 players1 dealer1 of
                Inl e \<Rightarrow> Inl e
              | Inr (deck2, players2, dealer2) \<Rightarrow>
                  Inr (deck2,
                       map (\<lambda>p. if isBlackjack (hand p) then p\<lparr>status := Blackjack\<rparr> else p)
                           players2,
                       dealer2)))"

subsection \<open>Dealer turn and settlement\<close>

definition resolveResult :: "player \<Rightarrow> int \<Rightarrow> bool \<Rightarrow> bool \<Rightarrow> result" where
  "resolveResult p dealerTotal dealerBlackjack dealerBust =
     (let playerTotal = calculateHand (hand p)
      in if status p = Bust then Lose
         else if isBlackjack (hand p) \<and> dealerBlackjack then Push
         else if dealerBlackjack then Lose
         else if isBlackjack (hand p) then BlackjackResult
         else if dealerBust then Win
         else if playerTotal > dealerTotal then Win
         else if playerTotal < dealerTotal then Lose
         else Push)"

text \<open>
  The \<open>while (dealerTotal < 17)\<close> loop on the pair of the dealer's hand and the deck. A draw
  from the empty deck appends \<open>undefined\<close>, and totalling that hand throws.
\<close>

function dealerLoop :: "card list \<Rightarrow> card list \<Rightarrow> error + (card list \<times> card list)" where
  "dealerLoop h dk =
     (if calculateHand h < 17
      then (case drawCard dk of
              (None, _) \<Rightarrow> Inl TypeError
            | (Some c, next) \<Rightarrow> dealerLoop (h @ [c]) next)
      else Inr (h, dk))"
  by pat_completeness auto
termination
  by (relation "measure (\<lambda>(h, dk). length dk)")
     (auto simp: drawCard_def split: list.splits)

declare dealerLoop.simps [simp del]

definition Math_round :: "rat \<Rightarrow> int" where
  "Math_round x = \<lfloor>x + 1 / 2\<rfloor>"

definition weight :: "player \<Rightarrow> rat" where
  "weight p = bet p * (if result p = BlackjackResult then 3 / 2 else 1)"

definition isWinner :: "player \<Rightarrow> bool" where
  "isWinner p \<longleftrightarrow> result p = Win \<or> result p = BlackjackResult"

text \<open>The pooled branch: the pool after the push refunds, the weights, the payout map.\<close>

definition poolAfterPushes :: "rat \<Rightarrow> player list \<Rightarrow> rat" where
  "poolAfterPushes nextPot resolvedPlayers =
     foldl (\<lambda>potPool p. potPool - bet p) nextPot (filter (\<lambda>p. result p = Push) resolvedPlayers)"

definition totalWeight :: "player list \<Rightarrow> rat" where
  "totalWeight resolvedPlayers = foldl (\<lambda>sum p. sum + weight p) 0 (filter isWinner resolvedPlayers)"

definition payoutMap :: "rat \<Rightarrow> player list \<Rightarrow> (nat \<rightharpoonup> int)" where
  "payoutMap potPool resolvedPlayers =
     foldl (\<lambda>m p. m(pid p \<mapsto>
                    Math_round (if totalWeight resolvedPlayers > 0
                                then (potPool * weight p) / totalWeight resolvedPlayers
                                else 0)))
           Map.empty (filter isWinner resolvedPlayers)"

definition finalPlayers :: "rat \<Rightarrow> player list \<Rightarrow> player list" where
  "finalPlayers potPool resolvedPlayers =
     map (\<lambda>p. let refund = (if result p = Push then bet p else 0);
                  payout = (case payoutMap potPool resolvedPlayers (pid p) of
                              Some v \<Rightarrow> of_int v | None \<Rightarrow> 0);
                  finalChips = chips p + refund + payout
              in p\<lparr>chips := finalChips, delta := finalChips - roundStartChips p\<rparr>)
         resolvedPlayers"

text \<open>The other branch: each player is paid alone.\<close>

definition payoutPlayers :: "player list \<Rightarrow> player list" where
  "payoutPlayers resolvedPlayers =
     map (\<lambda>p. let payout0 = 0;
                  payout1 = (if result p = Push then bet p else payout0);
                  payout2 = (if result p = Win then bet p * 2 else payout1);
                  payout = (if result p = BlackjackResult then bet p * (5 / 2) else payout2);
                  finalChips = chips p + payout
              in p\<lparr>chips := finalChips, delta := finalChips - roundStartChips p\<rparr>)
         resolvedPlayers"

definition handleDealerTurn ::
  "state \<Rightarrow> player list \<Rightarrow> dealer \<Rightarrow> card list \<Rightarrow> rat \<Rightarrow> error + state" where
  "handleDealerTurn s currentPlayers currentDealer currentDeck nextPot =
     (case dealerLoop (dhand currentDealer) currentDeck of
        Inl e \<Rightarrow> Inl e
      | Inr (dealerHand, nextDeck) \<Rightarrow>
          (let nextDealer = currentDealer\<lparr>hidden := False, dhand := dealerHand\<rparr>;
               dealerTotal = calculateHand dealerHand;
               dealerBlackjack = isBlackjack dealerHand;
               dealerBust = (dealerTotal > 21);
               resolved =
                 map (\<lambda>p. p\<lparr>result := resolveResult p dealerTotal dealerBlackjack dealerBust\<rparr>)
                     currentPlayers;
               s1 = (if isMulti s
                     then (let potPool = poolAfterPushes nextPot resolved
                           in s\<lparr>pot := (if totalWeight resolved > 0 then 0 else potPool),
                                players := finalPlayers potPool resolved\<rparr>)
                     else s\<lparr>players := payoutPlayers resolved\<rparr>)
           in Inr (s1\<lparr>dealer := nextDealer,
                      deck := nextDeck,
                      phase := RoundEnd,
                      message := ''Round complete. Start the next round when ready.''\<rparr>)))"

subsection \<open>The handlers\<close>

definition invalidBets :: "player list \<Rightarrow> bool" where
  "invalidBets ps = list_ex (\<lambda>p. bet p \<le> 0 \<or> bet p > chips p) ps"

definition reservedPlayers :: "player list \<Rightarrow> player list" where
  "reservedPlayers ps =
     map (\<lambda>p. p\<lparr>chips := chips p - bet p, roundStartChips := chips p, delta := 0,
                result := NoResult, hand := [], status := Active\<rparr>) ps"

definition handleDeal :: "(nat \<Rightarrow> nat) \<Rightarrow> state \<Rightarrow> error + state" where
  "handleDeal rnd s =
     (if invalidBets (players s)
      then Inr (s\<lparr>message := ''Each player must bet more than $0 and within their chip balance.''\<rparr>)
      else
        (let potIncrease = foldl (\<lambda>sum p. sum + bet p) 0 (players s)
         in case dealInitial rnd (deck s) (reservedPlayers (players s)) of
              Inl e \<Rightarrow> Inl e
            | Inr (nextDeck, dealtPlayers, nextDealer) \<Rightarrow>
                (let s1 = s\<lparr>deck := nextDeck, players := dealtPlayers, dealer := nextDealer,
                            phase := Playing, message := ''Choose your action.''\<rparr>;
                     s2 = (if isMulti s then s1\<lparr>pot := pot s + potIncrease\<rparr> else s1);
                     nextIndex = nextActiveIndex dealtPlayers (- 1)
                 in if nextIndex = - 1
                    then handleDealerTurn s2 dealtPlayers nextDealer nextDeck
                           (if isMulti s then pot s + potIncrease else pot s)
                    else Inr (s2\<lparr>currentIndex := nat nextIndex\<rparr>))))"

text \<open>
  \<open>advanceTurn\<close> reads \<open>currentIndex\<close> from the render it was created in; \<open>s\<close> already
  holds the updates its caller has queued.
\<close>

definition advanceTurn ::
  "state \<Rightarrow> player list \<Rightarrow> dealer \<Rightarrow> card list \<Rightarrow> rat \<Rightarrow> error + state" where
  "advanceTurn s nextPlayers nextDealer nextDeck nextPot =
     (let nextIndex = nextActiveIndex nextPlayers (int (currentIndex s))
      in if nextIndex = - 1
         then handleDealerTurn s nextPlayers nextDealer nextDeck nextPot
         else Inr (s\<lparr>currentIndex := nat nextIndex\<rparr>))"

definition handleHit :: "state \<Rightarrow> error + state" where
  "handleHit s =
     (if \<not> currentIndex s < length (players s)
         \<or> status (players s ! currentIndex s) \<noteq> Active
      then Inr s
      else
        (let p = players s ! currentIndex s
         in case drawCard (deck s) of
              (None, _) \<Rightarrow> Inl TypeError
            | (Some c, next) \<Rightarrow>
                (let updatedHand = hand p @ [c];
                     tot = calculateHand updatedHand;
                     updatedPlayers0 =
                       mapIdx (\<lambda>q idx. if idx = currentIndex s then q\<lparr>hand := updatedHand\<rparr> else q)
                              (players s);
                     updatedPlayers =
                       (if tot > 21
                        then updatedPlayers0[currentIndex s :=
                               (updatedPlayers0 ! currentIndex s)\<lparr>status := Bust\<rparr>]
                        else if tot = 21
                        then updatedPlayers0[currentIndex s :=
                               (updatedPlayers0 ! currentIndex s)\<lparr>status := Stand\<rparr>]
                        else updatedPlayers0);
                     s1 = s\<lparr>deck := next, players := updatedPlayers\<rparr>
                 in if status (updatedPlayers ! currentIndex s) \<noteq> Active
                    then advanceTurn s1 updatedPlayers (dealer s) next (pot s)
                    else Inr s1)))"

definition handleStand :: "state \<Rightarrow> error + state" where
  "handleStand s =
     (let updatedPlayers =
            mapIdx (\<lambda>p idx. if idx = currentIndex s then p\<lparr>status := Stand\<rparr> else p) (players s)
      in advanceTurn (s\<lparr>players := updatedPlayers\<rparr>) updatedPlayers (dealer s) (deck s) (pot s))"

definition handleNextRound :: "state \<Rightarrow> state" where
  "handleNextRound s =
     s\<lparr>players := map (\<lambda>p. p\<lparr>bet := 0, hand := [], status := Idle, result := NoResult,
                             delta := 0\<rparr>) (players s),
       dealer := emptyDealer,
       phase := Betting,
       roundNo := roundNo s + 1,
       betIndex := 0,
       message := ''Select chips and press Deal to start the round.''\<rparr>"

definition handleBetAdd :: "nat \<Rightarrow> rat \<Rightarrow> state \<Rightarrow> state" where
  "handleBetAdd index amount s =
     s\<lparr>players := mapIdx (\<lambda>p idx. if idx \<noteq> index then p
                                   else (let nextBet = min (chips p) (bet p + amount)
                                         in p\<lparr>bet := nextBet\<rparr>))
                         (players s)\<rparr>"

definition handleBetClear :: "nat \<Rightarrow> state \<Rightarrow> state" where
  "handleBetClear index s =
     s\<lparr>players := mapIdx (\<lambda>p idx. if idx = index then p\<lparr>bet := 0\<rparr> else p) (players s)\<rparr>"

definition handleBetAllIn :: "nat \<Rightarrow> state \<Rightarrow> state" where
  "handleBetAllIn index s =
     s\<lparr>players := mapIdx (\<lambda>p idx. if idx = index then p\<lparr>bet := chips p\<rparr> else p) (players s)\<rparr>"

subsection \<open>Auxiliary notions used in the statements\<close>

text \<open>The state a rejected deal leaves: only the message differs.\<close>

definition rejection :: "state \<Rightarrow> error + state" where
  "rejection s =
     Inr (s\<lparr>message := ''Each player must bet more than $0 and within their chip balance.''\<rparr>)"

text \<open>The bet invariant of the betting phase, and the bet adjustments as actions.\<close>

definition betsWithinChips :: "player list \<Rightarrow> bool" where
  "betsWithinChips ps \<longleftrightarrow> (\<forall>p\<in>set ps. 0 \<le> bet p \<and> bet p \<le> chips p)"

datatype betAction = BetAdd nat rat | BetClear nat | BetAllIn nat

fun applyBet :: "state \<Rightarrow> betAction \<Rightarrow> state" where
  "applyBet s (BetAdd index amount) = handleBetAdd index amount s"
| "applyBet s (BetClear index) = handleBetClear index s"
| "applyBet s (BetAllIn index) = handleBetAllIn index s"

text \<open>The chip buttons add a denomination of \<open>CHIP_VALUES\<close>.\<close>

fun chipAction :: "betAction \<Rightarrow> bool" where
  "chipAction (BetAdd index amount) \<longleftrightarrow> amount \<in> set CHIP_VALUES"
| "chipAction (BetClear index) \<longleftrightarrow> True"
| "chipAction (BetAllIn index) \<longleftrightarrow> True"

text \<open>
  The players as \<open>handleDealerTurn\<close> resolves them against the dealer's final hand, and
  the quantities of the settlement rules in the words of the specification: the bets
  refunded to pushes, the weight of a seat among the winners, the payout multiplier of a
  result.
\<close>

definition resolvedPlayers :: "card list \<Rightarrow> player list \<Rightarrow> player list" where
  "resolvedPlayers dealerHand ps =
     map (\<lambda>p. p\<lparr>result := resolveResult p (calculateHand dealerHand) (isBlackjack dealerHand)
                                          (calculateHand dealerHand > 21)\<rparr>) ps"

definition pushRefunds :: "player list \<Rightarrow> rat" where
  "pushRefunds rs = sum_list (map bet (filter (\<lambda>p. result p = Push) rs))"

definition shareWeight :: "player \<Rightarrow> rat" where
  "shareWeight p =
     (if result p = BlackjackResult then bet p * (3 / 2)
      else if result p = Win then bet p * 1
      else 0)"

definition winnerWeightSum :: "player list \<Rightarrow> rat" where
  "winnerWeightSum rs = sum_list (map shareWeight rs)"

fun payoutMultiplier :: "result \<Rightarrow> rat" where
  "payoutMultiplier Push = 1"
| "payoutMultiplier Win = 2"
| "payoutMultiplier BlackjackResult = 5 / 2"
| "payoutMultiplier Lose = 0"
| "payoutMultiplier NoResult = 0"

text \<open>The hands of a seat dealt from the draw order \<open>r\<close> at a table of \<open>n\<close> seats.\<close>

definition dealtSeat :: "card list \<Rightarrow> nat \<Rightarrow> player \<Rightarrow> nat \<Rightarrow> player" where
  "dealtSeat r n p i =
     (let h = [r ! i, r ! (n + 1 + i)]
      in p\<lparr>hand := h, status := (if isBlackjack h then Blackjack else Active),
           result := NoResult\<rparr>)"

text \<open>
  Example data: the state of the first render, for a chosen player count and deck, and a
  deck order that deals the first seat the ace and the jack of clubs and the dealer the
  queen and the ten of clubs.
\<close>

definition initialState :: "nat \<Rightarrow> card list \<Rightarrow> state" where
  "initialState n dk =
     \<lparr>screen = Lobby, phase = Betting, playerCount = n, players = [], dealer = emptyDealer,
      deck = dk, currentIndex = 0, betIndex = 0, message = [], roundNo = 1, pot = 0\<rparr>"

definition exampleDeck :: "card list" where
  "exampleDeck = createDeck[39 := mkCard Clubs ''K'', 51 := mkCard Clubs ''A'']"

text \<open>
  A second deck order, for two seats: the first seat is dealt queen and eight, the second
  jack and nine, the dealer king and eight; the next card is a three.
\<close>

definition pushWinTop :: "card list" where
  "pushWinTop = [mkCard Hearts ''Q'', mkCard Diamonds ''J'', mkCard Spades ''K'',
                 mkCard Hearts ''8'', mkCard Diamonds ''9'', mkCard Spades ''8'',
                 mkCard Clubs ''3'']"

definition pushWinDeck :: "card list" where
  "pushWinDeck = filter (\<lambda>c. c \<notin> set pushWinTop) createDeck @ rev pushWinTop"

text \<open>Running one handler after another, stopping at the first throw.\<close>

definition thenDo :: "error + state \<Rightarrow> (state \<Rightarrow> error + state) \<Rightarrow> error + state" where
  "thenDo r f = (case r of Inl e \<Rightarrow> Inl e | Inr s \<Rightarrow> f s)"

text \<open>
  The solo table with a bet of 100 on the first deck order, and the table of two with bets
  of 100 and 200 on the second.
\<close>

definition soloBet :: state where
  "soloBet = handleBetAdd 0 100 (handleLobbyStart (initialState 1 exampleDeck))"

definition betsPlaced :: state where
  "betsPlaced = handleBetAdd 1 100 (handleBetAdd 1 100 (handleBetAdd 0 100
                  (handleLobbyStart (initialState 2 pushWinDeck))))"

text \<open>A seat with the given id, chips, bet, hand and status.\<close>

definition seat :: "nat \<Rightarrow> rat \<Rightarrow> rat \<Rightarrow> card list \<Rightarrow> status \<Rightarrow> player" where
  "seat i c b h st =
     \<lparr>pid = i, name = ''Player '' @ showNat i, chips = c, roundStartChips = c + b, bet = b,
      hand = h, status = st, result = NoResult, delta = 0\<rparr>"

text \<open>
  States and seats of the two example rounds: the table of two after the deal and after
  the first seat has stood, both seats standing, and a solo seat holding a natural against
  a dealer's twenty.
\<close>

definition playing :: state where
  "playing = (case handleDeal (\<lambda>i. 0) betsPlaced of Inr s \<Rightarrow> s | Inl e \<Rightarrow> betsPlaced)"

definition standing :: state where
  "standing = (case thenDo (handleDeal (\<lambda>i. 0) betsPlaced) handleStand of
                 Inr s \<Rightarrow> s | Inl e \<Rightarrow> betsPlaced)"

definition bothStand :: "player list" where
  "bothStand = (players standing)[1 := (players standing ! 1)\<lparr>status := Stand\<rparr>]"

definition soloSeat :: "player list" where
  "soloSeat = [seat 1 900 100 [mkCard Clubs ''A'', mkCard Clubs ''J''] Blackjack]"

definition soloDealer :: dealer where
  "soloDealer = \<lparr>dhand = [mkCard Clubs ''Q'', mkCard Clubs ''10''], hidden = True\<rparr>"

text \<open>
  The invariant of the turn pointer: while playing, no seat before the acting index is
  active; in every other phase no seat is active at all.
\<close>

definition noneActive :: "player list \<Rightarrow> bool" where
  "noneActive ps \<longleftrightarrow> list_all (\<lambda>p. status p \<noteq> Active) ps"

definition turnInv :: "state \<Rightarrow> bool" where
  "turnInv s \<longleftrightarrow>
     (if phase s = Playing
      then noneActive (take (currentIndex s) (players s))
      else noneActive (players s))"

text \<open>The solo table at the end of its example round.\<close>

definition soloEnd :: state where
  "soloEnd = (case handleDeal (\<lambda>i. 0) soloBet of Inr s \<Rightarrow> s | Inl e \<Rightarrow> soloBet)"

subsection \<open>Throwing handlers and the buttons of the render\<close>

text \<open>
  A handler that throws leaves the \<open>set\<close> calls it made before the throw queued, and React
  applies them. \<open>handleHit\<close> throws either where it totals the hand that holds the
  undefined card, before its first \<open>set\<close> call, or inside \<open>advanceTurn\<close>, after
  \<open>setDeck\<close> and \<open>setPlayers\<close>; \<open>handleStand\<close> throws inside \<open>advanceTurn\<close>, after
  \<open>setPlayers\<close>; \<open>handleDeal\<close> throws inside \<open>handleDealerTurn\<close>, after all its \<open>set\<close>
  calls but \<open>setCurrentIndex\<close>. \<open>handleDealerTurn\<close> itself makes its \<open>set\<close> calls after
  the dealer's loop, the only place where it throws. The three functions below are the
  states these queued calls give; each is used only where its handler throws, hence for
  \<open>handleHit\<close> behind its guard and for \<open>handleDeal\<close> with valid bets.

  A failure of \<open>dealInitial\<close> needs a deck short of the cards of the deal. A deck in use
  holds at least 15 cards, so this takes more than six seats, and the lobby seats at most
  four; \<open>dealQueued\<close> leaves the state as it was in that case.
\<close>

definition hitQueued :: "state \<Rightarrow> state" where
  "hitQueued s =
     (let p = players s ! currentIndex s
      in case drawCard (deck s) of
           (None, _) \<Rightarrow> s
         | (Some c, next) \<Rightarrow>
             (let updatedHand = hand p @ [c];
                  tot = calculateHand updatedHand;
                  updatedPlayers0 =
                    mapIdx (\<lambda>q idx. if idx = currentIndex s then q\<lparr>hand := updatedHand\<rparr> else q)
                           (players s);
                  updatedPlayers =
                    (if tot > 21
                     then updatedPlayers0[currentIndex s :=
                            (updatedPlayers0 ! currentIndex s)\<lparr>status := Bust\<rparr>]
                     else if tot = 21
                     then updatedPlayers0[currentIndex s :=
                            (updatedPlayers0 ! currentIndex s)\<lparr>status := Stand\<rparr>]
                     else updatedPlayers0)
              in s\<lparr>deck := next, players := updatedPlayers\<rparr>))"

definition standQueued :: "state \<Rightarrow> state" where
  "standQueued s =
     s\<lparr>players := mapIdx (\<lambda>p idx. if idx = currentIndex s then p\<lparr>status := Stand\<rparr> else p)
                         (players s)\<rparr>"

definition dealQueued :: "(nat \<Rightarrow> nat) \<Rightarrow> state \<Rightarrow> state" where
  "dealQueued rnd s =
     (case dealInitial rnd (deck s) (reservedPlayers (players s)) of
        Inl e \<Rightarrow> s
      | Inr (nextDeck, dealtPlayers, nextDealer) \<Rightarrow>
          (let s1 = s\<lparr>deck := nextDeck, players := dealtPlayers, dealer := nextDealer,
                      phase := Playing, message := ''Choose your action.''\<rparr>
           in if isMulti s
              then s1\<lparr>pot := pot s + foldl (\<lambda>sum p. sum + bet p) 0 (players s)\<rparr>
              else s1))"

text \<open>The state after a handler: its own result, or the queued calls when it threw.\<close>

definition committed :: "state \<Rightarrow> error + state \<Rightarrow> state" where
  "committed queued r = (case r of Inr s' \<Rightarrow> s' | Inl e \<Rightarrow> queued)"

text \<open>
  The button presses. A deal carries the random choices its reshuffle would consume.
\<close>

datatype action =
  DoSetPlayerCount nat | DoLobbyStart | DoBet betAction | DoDeal "nat \<Rightarrow> nat" | DoHit | DoStand
  | DoNextRound

fun commitStep :: "state \<Rightarrow> action \<Rightarrow> state" where
  "commitStep s (DoSetPlayerCount n) = s\<lparr>playerCount := n\<rparr>"
| "commitStep s DoLobbyStart = handleLobbyStart s"
| "commitStep s (DoBet a) = applyBet s a"
| "commitStep s (DoDeal rnd) = committed (dealQueued rnd s) (handleDeal rnd s)"
| "commitStep s DoHit = committed (hitQueued s) (handleHit s)"
| "commitStep s DoStand = committed (standQueued s) (handleStand s)"
| "commitStep s DoNextRound = handleNextRound s"

text \<open>
  The buttons of the render: the seat counts 1 to 4 and the start button in the lobby; at
  the table the chip, clear and all-in buttons of every seat and the deal button while
  betting, the hit and stand buttons while playing, and the next-round button at round end.
\<close>

fun betIndexOf :: "betAction \<Rightarrow> nat" where
  "betIndexOf (BetAdd index amount) = index"
| "betIndexOf (BetClear index) = index"
| "betIndexOf (BetAllIn index) = index"

fun enabled :: "state \<Rightarrow> action \<Rightarrow> bool" where
  "enabled s (DoSetPlayerCount n) \<longleftrightarrow> screen s = Lobby \<and> n \<in> set [1, 2, 3, 4]"
| "enabled s DoLobbyStart \<longleftrightarrow> screen s = Lobby"
| "enabled s (DoBet a) \<longleftrightarrow>
     screen s = Table \<and> phase s = Betting \<and> betIndexOf a < length (players s) \<and> chipAction a"
| "enabled s (DoDeal rnd) \<longleftrightarrow> screen s = Table \<and> phase s = Betting"
| "enabled s DoHit \<longleftrightarrow> screen s = Table \<and> phase s = Playing"
| "enabled s DoStand \<longleftrightarrow> screen s = Table \<and> phase s = Playing"
| "enabled s DoNextRound \<longleftrightarrow> screen s = Table \<and> phase s = RoundEnd"

fun uiRun :: "state \<Rightarrow> action list \<Rightarrow> state option" where
  "uiRun s [] = Some s"
| "uiRun s (a # as) = (if enabled s a then uiRun (commitStep s a) as else None)"

text \<open>
  The first render holds a freshly shuffled deck and the default of two seats. A state is
  receivable when some sequence of button presses leads from a first render to it.
\<close>

definition firstRender :: "(nat \<Rightarrow> nat) \<Rightarrow> state" where
  "firstRender rnd = initialState 2 (shuffle rnd createDeck)"

definition receivable :: "state \<Rightarrow> bool" where
  "receivable s \<longleftrightarrow> (\<exists>rnd as. uiRun (firstRender rnd) as = Some s)"

text \<open>
  A long session at a table of two. The random choices \<open>runChoices\<close> make the shuffle of
  the first render give the deck that is drawn in the order \<open>drawOrder\<close>. Six rounds are
  played with a bet of 10 each and both seats standing at once; they take 6, 6, 6, 6, 6 and
  7 cards (the dealer draws once in the sixth), so that the seventh deal finds 15 cards and
  deals 4, 4 to the first seat, 2, 3 to the second and 6, 7 to the dealer. Nine cards are
  left: 2, 3, 3, 4, 5, 2, 3, 2, 5.
  \<^item> In \<open>toStalled\<close> the first seat hits four times (20) and stands, and the second seat
    hits five times: 10, 12, 15, 17 and, with the last card of the deck, 22.
  \<^item> In \<open>toDrained\<close> the first seat hits five times and is bust (25), and the second seat
    hits four times: 7, 10, 12, 17. It is active and the deck is empty.
\<close>

definition runChoices :: "nat list" where
  "runChoices = [0, 0, 2, 3, 0, 0, 6, 2, 3, 4, 2, 6, 8, 1, 3, 10, 6, 10, 9, 4, 9, 8, 11, 7, 12, 12]
     @ [26, 24, 22, 0, 5, 7, 10, 7, 31, 33, 33, 26, 34, 35, 18, 23, 20, 13, 21, 22, 5, 10, 7, 0, 8, 9]"

definition runRnd :: "nat \<Rightarrow> nat" where
  "runRnd i = runChoices ! i"

definition quickRound :: "action list" where
  "quickRound = [DoBet (BetAdd 0 10), DoBet (BetAdd 1 10), DoDeal (\<lambda>i. 0), DoStand, DoStand,
                 DoNextRound]"

definition lastDeal :: "action list" where
  "lastDeal = DoLobbyStart # concat (replicate 6 quickRound)
              @ [DoBet (BetAdd 0 10), DoBet (BetAdd 1 10), DoDeal (\<lambda>i. 0)]"

definition toStalled :: "action list" where
  "toStalled = lastDeal @ replicate 4 DoHit @ [DoStand] @ replicate 5 DoHit"


definition drawOrder :: "card list" where
  "drawOrder =
     [mkCard Spades ''10'', mkCard Spades ''9'', mkCard Spades ''A'', mkCard Spades ''8'', mkCard Spades ''J'', mkCard Spades ''6'',
      mkCard Hearts ''10'', mkCard Hearts ''9'', mkCard Hearts ''A'', mkCard Hearts ''8'', mkCard Hearts ''J'', mkCard Hearts ''6'',
      mkCard Diamonds ''10'', mkCard Diamonds ''9'', mkCard Diamonds ''A'', mkCard Diamonds ''8'', mkCard Diamonds ''J'', mkCard Diamonds ''6'',
      mkCard Clubs ''10'', mkCard Clubs ''9'', mkCard Clubs ''A'', mkCard Clubs ''8'', mkCard Clubs ''J'', mkCard Clubs ''7'',
      mkCard Hearts ''Q'', mkCard Diamonds ''Q'', mkCard Spades ''K'', mkCard Hearts ''K'', mkCard Diamonds ''K'', mkCard Spades ''Q'',
      mkCard Clubs ''Q'', mkCard Clubs ''K'', mkCard Spades ''5'', mkCard Clubs ''4'', mkCard Diamonds ''7'', mkCard Spades ''7'', mkCard Hearts ''5'',
      mkCard Spades ''4'', mkCard Spades ''2'', mkCard Clubs ''6'', mkCard Hearts ''4'', mkCard Spades ''3'', mkCard Hearts ''7'',
      mkCard Hearts ''2'', mkCard Hearts ''3'', mkCard Diamonds ''3'', mkCard Diamonds ''4'', mkCard Diamonds ''5'',
      mkCard Diamonds ''2'', mkCard Clubs ''3'', mkCard Clubs ''2'', mkCard Clubs ''5'']"

definition stalled :: state where
  "stalled = (case uiRun (firstRender runRnd) toStalled of Some s \<Rightarrow> s | None \<Rightarrow> firstRender runRnd)"


text \<open>The table of two of that session after the lobby and a first chip.\<close>

definition seated :: state where
  "seated = (case uiRun (firstRender runRnd) [DoLobbyStart, DoBet (BetAdd 0 10)] of
               Some s \<Rightarrow> s | None \<Rightarrow> firstRender runRnd)"

section \<open>Properties\<close>

subsection \<open>The deck\<close>

lemma length_createDeck: "length createDeck = 52"
  by (simp add: createDeck_def SUITS_def RANKS_def)

lemma length_shuffleFrom: "length (shuffleFrom rnd i dk) = length dk"
  by (induction i arbitrary: dk) (simp_all add: Let_def)

lemma length_shuffle: "length (shuffle rnd cards) = length cards"
  by (simp add: shuffle_def length_shuffleFrom)

lemma rankValue_RANKS: "r \<in> set RANKS \<Longrightarrow> rankValue r = nominalValue r"
  by (auto simp: RANKS_def rankValue_def nominalValue_def Number_def digitVal_def)

lemma createDeck_cvalue: "c \<in> set createDeck \<Longrightarrow> cvalue c = nominalValue (rank c)"
  by (auto simp: createDeck_def mkCard_def rankValue_RANKS)

lemma drawCard_Nil: "drawCard [] = (None, [])"
  by (simp add: drawCard_def)

lemma drawCard_snoc: "drawCard (dk @ [c]) = (Some c, dk)"
  by (simp add: drawCard_def)

lemma drawCard_nonempty: "dk \<noteq> [] \<Longrightarrow> drawCard dk = (Some (last dk), butlast dk)"
  using drawCard_snoc [of "butlast dk" "last dk"] by simp

subsection \<open>Hand totals and result classification\<close>

lemma foldl_add_sum_list: "foldl (\<lambda>sum c. sum + f c) a xs = a + sum_list (map f xs)" for a :: int
  by (induction xs arbitrary: a) simp_all

lemma reduceAces_spec:
  "\<exists>k\<le>a. reduceAces t a = t - 10 * int k \<and> (reduceAces t a \<le> 21 \<or> k = a)
          \<and> (\<forall>j<k. t - 10 * int j > 21)"
proof (induction a arbitrary: t)
  case 0
  then show ?case by simp
next
  case (Suc a)
  show ?case
  proof (cases "t > 21")
    case False
    then show ?thesis by (intro exI [of _ 0]) simp
  next
    case True
    from Suc.IH [of "t - 10"] obtain k where k: "k \<le> a"
      "reduceAces (t - 10) a = t - 10 - 10 * int k"
      "reduceAces (t - 10) a \<le> 21 \<or> k = a"
      "\<forall>j<k. t - 10 - 10 * int j > 21" by blast
    have "\<forall>j<Suc k. t - 10 * int j > 21"
    proof (intro allI impI)
      fix j assume "j < Suc k"
      show "t - 10 * int j > 21"
      proof (cases j)
        case 0 with True show ?thesis by simp
      next
        case (Suc j')
        with \<open>j < Suc k\<close> k(4) have "t - 10 - 10 * int j' > 21" by simp
        with Suc show ?thesis by simp
      qed
    qed
    with True k show ?thesis by (intro exI [of _ "Suc k"]) simp
  qed
qed

lemma calculateHand_nominal:
  assumes "\<forall>c\<in>set h. cvalue c = nominalValue (rank c)"
  shows "calculateHand h = reduceAces (nominalTotal h) (aceCount h)"
proof -
  from assms have "sum_list (map cvalue h) = sum_list (map (\<lambda>c. nominalValue (rank c)) h)"
    by (induction h) simp_all
  then show ?thesis
    by (simp add: calculateHand_def nominalTotal_def aceCount_def foldl_add_sum_list)
qed

lemmas card_eval = calculateHand_def mkCard_def rankValue_def Number_def digitVal_def

text \<open>
  Claim C7. For a hand of cards of the deck, \<open>calculateHand\<close> is the sum of the nominal
  values (ace 11, king, queen and jack 10, a number card its number) less 10 for each of
  \<open>k\<close> reduced aces, where \<open>k\<close> is at most the number of aces, the reductions stop as soon
  as the total is at most 21 or no ace is left, and no reduction happens while the total is
  at most 21. Then the four hands of the specification: ace, ace, nine is 21; ace, nine is
  20; king, queen, two is 22, its nominal total; three aces and an eight is 21, two
  reductions below its nominal total.
\<close>

theorem calculateHand_soft_ace_rule:
  "((\<forall>c\<in>set h. c \<in> set createDeck) \<longrightarrow>
      (\<exists>k\<le>aceCount h.
          calculateHand h = nominalTotal h - 10 * int k
        \<and> (calculateHand h \<le> 21 \<or> k = aceCount h)
        \<and> (\<forall>j<k. nominalTotal h - 10 * int j > 21)))
   \<and> calculateHand [mkCard Spades ''A'', mkCard Hearts ''A'', mkCard Spades ''9''] = 21
   \<and> calculateHand [mkCard Spades ''A'', mkCard Spades ''9''] = 20
   \<and> calculateHand [mkCard Spades ''K'', mkCard Hearts ''Q'', mkCard Clubs ''2''] = 22
   \<and> nominalTotal [mkCard Spades ''K'', mkCard Hearts ''Q'', mkCard Clubs ''2''] = 22
   \<and> calculateHand [mkCard Spades ''A'', mkCard Hearts ''A'', mkCard Clubs ''A'',
                     mkCard Spades ''8''] = 21
   \<and> nominalTotal [mkCard Spades ''A'', mkCard Hearts ''A'', mkCard Clubs ''A'',
                    mkCard Spades ''8''] = 21 + 10 * 2"
proof -
  have general: "(\<forall>c\<in>set h. c \<in> set createDeck) \<longrightarrow>
      (\<exists>k\<le>aceCount h.
          calculateHand h = nominalTotal h - 10 * int k
        \<and> (calculateHand h \<le> 21 \<or> k = aceCount h)
        \<and> (\<forall>j<k. nominalTotal h - 10 * int j > 21))"
  proof
    assume "\<forall>c\<in>set h. c \<in> set createDeck"
    then have "\<forall>c\<in>set h. cvalue c = nominalValue (rank c)"
      by (simp add: createDeck_cvalue)
    then have "calculateHand h = reduceAces (nominalTotal h) (aceCount h)"
      by (rule calculateHand_nominal)
    with reduceAces_spec [of "aceCount h" "nominalTotal h"] show
      "\<exists>k\<le>aceCount h.
          calculateHand h = nominalTotal h - 10 * int k
        \<and> (calculateHand h \<le> 21 \<or> k = aceCount h)
        \<and> (\<forall>j<k. nominalTotal h - 10 * int j > 21)"
      by simp
  qed
  have e1: "calculateHand [mkCard Spades ''A'', mkCard Hearts ''A'', mkCard Spades ''9''] = 21"
    by (simp add: card_eval)
  have e2: "calculateHand [mkCard Spades ''A'', mkCard Spades ''9''] = 20"
    by (simp add: card_eval)
  have e3: "calculateHand [mkCard Spades ''K'', mkCard Hearts ''Q'', mkCard Clubs ''2''] = 22"
    by (simp add: card_eval)
  have e3': "nominalTotal [mkCard Spades ''K'', mkCard Hearts ''Q'', mkCard Clubs ''2''] = 22"
    by (simp add: nominalTotal_def nominalValue_def mkCard_def)
  have e4: "calculateHand [mkCard Spades ''A'', mkCard Hearts ''A'', mkCard Clubs ''A'',
                     mkCard Spades ''8''] = 21"
    by (simp add: card_eval)
  have e4': "nominalTotal [mkCard Spades ''A'', mkCard Hearts ''A'', mkCard Clubs ''A'',
                    mkCard Spades ''8''] = 21 + 10 * 2"
    by (simp add: nominalTotal_def nominalValue_def mkCard_def)
  from general e1 e2 e3 e3' e4 e4' show ?thesis by blast
qed

theorem calculateHand_soft_ace_rule_witness:
  "set [mkCard Spades ''A'', mkCard Hearts ''A'', mkCard Spades ''9''] \<subseteq> set createDeck
   \<and> (\<exists>k\<le>aceCount [mkCard Spades ''A'', mkCard Hearts ''A'', mkCard Spades ''9''].
          calculateHand [mkCard Spades ''A'', mkCard Hearts ''A'', mkCard Spades ''9'']
            = nominalTotal [mkCard Spades ''A'', mkCard Hearts ''A'', mkCard Spades ''9'']
              - 10 * int k
        \<and> k = 1)"
proof -
  let ?h = "[mkCard Spades ''A'', mkCard Hearts ''A'', mkCard Spades ''9'']"
  have mem: "\<forall>c\<in>set ?h. c \<in> set createDeck"
    by (simp add: createDeck_def SUITS_def RANKS_def)
  with calculateHand_soft_ace_rule [of ?h] obtain k where k: "k \<le> aceCount ?h"
    "calculateHand ?h = nominalTotal ?h - 10 * int k" by blast
  have "calculateHand ?h = 21" by (simp add: card_eval)
  moreover have "nominalTotal ?h = 31" by (simp add: nominalTotal_def nominalValue_def mkCard_def)
  ultimately have "k = 1" using k(2) by simp
  with mem k show ?thesis by blast
qed

text \<open>
  Claim C9, as amended. \<open>drawCard\<close> never fails. On a deck with a last card it returns
  that card and the deck without it; on the empty deck it returns the undefined card and
  the empty deck.
\<close>

theorem drawCard_total:
  "drawCard [] = (None, []) \<and> drawCard (dk @ [c]) = (Some c, dk)"
  by (simp add: drawCard_def)

text \<open>
  Against claim C9 as stated: on the empty deck \<open>drawCard\<close> does not fail, it returns
  an undefined card.
\<close>

theorem drawCard_empty_returns_undefined:
  "drawCard [] = (None, [])"
  by (simp add: drawCard_def)

subsection \<open>Indexed updates and the turn pointer\<close>

lemma length_mapIdx: "length (mapIdx f xs) = length xs"
  by (simp add: mapIdx_def)

lemma nth_mapIdx: "i < length xs \<Longrightarrow> mapIdx f xs ! i = f (xs ! i) i"
  by (simp add: mapIdx_def nth_enumerate_eq)

lemma mapIdx_update:
  "mapIdx (\<lambda>x idx. if idx = k then g x else x) xs = (if k < length xs then xs[k := g (xs ! k)] else xs)"
  by (rule nth_equalityI) (auto simp: length_mapIdx nth_mapIdx nth_list_update)

lemma mapIdx_update':
  "mapIdx (\<lambda>x idx. if idx \<noteq> k then x else g x) xs = (if k < length xs then xs[k := g (xs ! k)] else xs)"
  by (rule nth_equalityI) (auto simp: length_mapIdx nth_mapIdx nth_list_update)

lemma scanActive_none:
  "scanActive ps i = - 1 \<longleftrightarrow> (\<forall>j. i \<le> j \<and> j < length ps \<longrightarrow> status (ps ! j) \<noteq> Active)"
proof (induction ps i rule: scanActive.induct)
  case (1 ps i)
  show ?case
  proof (cases "i < length ps")
    case False
    then show ?thesis by (subst scanActive.simps) auto
  next
    case True
    show ?thesis
    proof (cases "status (ps ! i) = Active")
      case True
      with \<open>i < length ps\<close> show ?thesis by (subst scanActive.simps) auto
    next
      case False
      have "(\<forall>j. i \<le> j \<and> j < length ps \<longrightarrow> status (ps ! j) \<noteq> Active)
            \<longleftrightarrow> (\<forall>j. Suc i \<le> j \<and> j < length ps \<longrightarrow> status (ps ! j) \<noteq> Active)"
      proof
        assume a: "\<forall>j. Suc i \<le> j \<and> j < length ps \<longrightarrow> status (ps ! j) \<noteq> Active"
        show "\<forall>j. i \<le> j \<and> j < length ps \<longrightarrow> status (ps ! j) \<noteq> Active"
        proof (intro allI impI)
          fix j assume j: "i \<le> j \<and> j < length ps"
          show "status (ps ! j) \<noteq> Active"
          proof (cases "j = i")
            case True with False show ?thesis by simp
          next
            case False with j a show ?thesis by simp
          qed
        qed
      qed simp
      with 1 True False show ?thesis by (subst scanActive.simps) simp
    qed
  qed
qed

lemma scanActive_some:
  "i \<le> j \<Longrightarrow> j < length ps \<Longrightarrow> status (ps ! j) = Active \<Longrightarrow>
   \<forall>k. i \<le> k \<and> k < j \<longrightarrow> status (ps ! k) \<noteq> Active \<Longrightarrow> scanActive ps i = int j"
proof (induction ps i rule: scanActive.induct)
  case (1 ps i)
  show ?case
  proof (cases "i = j")
    case True
    with 1 show ?thesis by (subst scanActive.simps) simp
  next
    case False
    with 1 have "i < j" "status (ps ! i) \<noteq> Active" "i < length ps" by auto
    moreover from this 1 have "scanActive ps (Suc i) = int j" by auto
    ultimately show ?thesis by (subst scanActive.simps) simp
  qed
qed

lemma nextActiveIndex_none:
  "nextActiveIndex ps (int i) = - 1 \<longleftrightarrow> (\<forall>j. i < j \<and> j < length ps \<longrightarrow> status (ps ! j) \<noteq> Active)"
  by (simp add: nextActiveIndex_def scanActive_none nat_add_distrib Suc_le_eq)


lemma nextActiveIndex_first_none:
  "nextActiveIndex ps (- 1) = - 1 \<longleftrightarrow> (\<forall>j<length ps. status (ps ! j) \<noteq> Active)"
  by (simp add: nextActiveIndex_def scanActive_none)

lemma nextActiveIndex_first_some:
  "j < length ps \<Longrightarrow> status (ps ! j) = Active \<Longrightarrow>
   \<forall>k<j. status (ps ! k) \<noteq> Active \<Longrightarrow> nextActiveIndex ps (- 1) = int j"
  by (simp add: nextActiveIndex_def scanActive_some)

subsection \<open>Bet adjustments and the validation of a deal\<close>
lemma handleBetAdd_players:
  "players (handleBetAdd index amount s) =
     (if index < length (players s)
      then (players s)[index := (players s ! index)
             \<lparr>bet := min (chips (players s ! index)) (bet (players s ! index) + amount)\<rparr>]
      else players s)"
  by (simp add: handleBetAdd_def mapIdx_update' Let_def)

lemma handleBetClear_players:
  "players (handleBetClear index s) =
     (if index < length (players s)
      then (players s)[index := (players s ! index)\<lparr>bet := 0\<rparr>]
      else players s)"
  by (simp add: handleBetClear_def mapIdx_update)

lemma handleBetAllIn_players:
  "players (handleBetAllIn index s) =
     (if index < length (players s)
      then (players s)[index := (players s ! index)\<lparr>bet := chips (players s ! index)\<rparr>]
      else players s)"
  by (simp add: handleBetAllIn_def mapIdx_update)

lemma betsWithinChips_update:
  assumes "betsWithinChips ps" "0 \<le> bet q" "bet q \<le> chips q"
  shows "betsWithinChips (ps[i := q])"
proof -
  have "set (ps[i := q]) \<subseteq> insert q (set ps)" by (rule set_update_subset_insert)
  with assms show ?thesis unfolding betsWithinChips_def by auto
qed

lemma betsWithinChips_nth: "betsWithinChips ps \<Longrightarrow> i < length ps \<Longrightarrow> 0 \<le> bet (ps ! i) \<and> bet (ps ! i) \<le> chips (ps ! i)"
  by (simp add: betsWithinChips_def)

lemma CHIP_VALUES_pos: "amount \<in> set CHIP_VALUES \<Longrightarrow> 0 < amount"
  by (auto simp: CHIP_VALUES_def)

lemma handleBetAdd_inv:
  assumes "betsWithinChips (players s)" "0 \<le> amount"
  shows "betsWithinChips (players (handleBetAdd index amount s))"
proof (cases "index < length (players s)")
  case True
  with assms betsWithinChips_nth [OF assms(1) True] show ?thesis
    by (simp add: handleBetAdd_players betsWithinChips_update)
next
  case False
  with assms show ?thesis by (simp add: handleBetAdd_players)
qed

lemma handleBetClear_inv:
  assumes "betsWithinChips (players s)"
  shows "betsWithinChips (players (handleBetClear index s))"
proof (cases "index < length (players s)")
  case True
  with assms betsWithinChips_nth [OF assms(1) True] show ?thesis
    by (simp add: handleBetClear_players betsWithinChips_update)
next
  case False
  with assms show ?thesis by (simp add: handleBetClear_players)
qed

lemma handleBetAllIn_inv:
  assumes "betsWithinChips (players s)"
  shows "betsWithinChips (players (handleBetAllIn index s))"
proof (cases "index < length (players s)")
  case True
  with assms betsWithinChips_nth [OF assms(1) True] show ?thesis
    by (simp add: handleBetAllIn_players betsWithinChips_update)
next
  case False
  with assms show ?thesis by (simp add: handleBetAllIn_players)
qed

lemma applyBet_inv:
  "betsWithinChips (players s) \<Longrightarrow> chipAction a \<Longrightarrow> betsWithinChips (players (applyBet s a))"
  by (cases a) (auto simp: handleBetAdd_inv handleBetClear_inv handleBetAllIn_inv
                     dest: CHIP_VALUES_pos)

lemma applyBets_inv:
  "betsWithinChips (players s) \<Longrightarrow> \<forall>a\<in>set acts. chipAction a \<Longrightarrow>
   betsWithinChips (players (foldl applyBet s acts))"
  by (induction acts arbitrary: s) (simp_all add: applyBet_inv)

lemma invalidBets_iff:
  "invalidBets ps \<longleftrightarrow> \<not> (\<forall>p\<in>set ps. 0 < bet p \<and> bet p \<le> chips p)"
  by (auto simp: invalidBets_def list_ex_iff not_less not_le)

lemma invalidBets_within:
  "betsWithinChips ps \<Longrightarrow> invalidBets ps \<longleftrightarrow> (\<exists>p\<in>set ps. bet p = 0)"
  unfolding invalidBets_iff betsWithinChips_def by (metis order.strict_iff_order less_irrefl)

lemma handleDeal_invalid: "invalidBets (players s) \<Longrightarrow> handleDeal rnd s = rejection s"
  by (simp add: handleDeal_def rejection_def)

lemma handleDealerTurn_message:
  "handleDealerTurn s ps d dk np = Inr s' \<Longrightarrow>
   message s' = ''Round complete. Start the next round when ready.''"
  by (auto simp: handleDealerTurn_def Let_def split: sum.splits prod.splits if_splits)

lemma handleDeal_valid_message:
  assumes "\<not> invalidBets (players s)" "handleDeal rnd s = Inr s'"
  shows "message s' = ''Choose your action.''
         \<or> message s' = ''Round complete. Start the next round when ready.''"
  using assms
  by (auto simp: handleDeal_def Let_def split: sum.splits prod.splits if_splits
           dest: handleDealerTurn_message)

lemma handleDeal_valid_not_rejection:
  assumes "\<not> invalidBets (players s)"
  shows "handleDeal rnd s \<noteq> rejection s"
proof
  assume "handleDeal rnd s = rejection s"
  then have "handleDeal rnd s =
    Inr (s\<lparr>message := ''Each player must bet more than $0 and within their chip balance.''\<rparr>)"
    by (simp add: rejection_def)
  from handleDeal_valid_message [OF assms this] show False by simp
qed

lemma handleDeal_rejection_iff: "handleDeal rnd s = rejection s \<longleftrightarrow> invalidBets (players s)"
  using handleDeal_invalid handleDeal_valid_not_rejection by blast

text \<open>
  Claim C10. From a table whose bets lie between 0 and the chips of their seats: adding a
  chip denomination, clearing and all-in keep every bet in that range, change nothing of
  the state but the player list, keep its length and leave every other seat as it was; at
  the targeted seat only \<open>bet\<close> changes, to the minimum of the chips and the bet plus the
  amount, to 0, and to the chips. So after any sequence of such adjustments the bets are
  still in range, and a deal is rejected exactly when some bet is 0.
\<close>

theorem bet_adjustments_keep_bets_within_chips:
  assumes "betsWithinChips (players s)"
  shows
   "(amount \<in> set CHIP_VALUES \<longrightarrow>
       (\<forall>s' \<in> {handleBetAdd index amount s, handleBetClear index s, handleBetAllIn index s}.
          betsWithinChips (players s')
        \<and> s' = s\<lparr>players := players s'\<rparr>
        \<and> length (players s') = length (players s)
        \<and> (\<forall>i<length (players s). i \<noteq> index \<longrightarrow> players s' ! i = players s ! i)))
    \<and> (index < length (players s) \<longrightarrow>
         players (handleBetAdd index amount s) ! index =
           (players s ! index)\<lparr>bet := min (chips (players s ! index))
                                         (bet (players s ! index) + amount)\<rparr>
       \<and> players (handleBetClear index s) ! index = (players s ! index)\<lparr>bet := 0\<rparr>
       \<and> players (handleBetAllIn index s) ! index =
           (players s ! index)\<lparr>bet := chips (players s ! index)\<rparr>)
    \<and> ((\<forall>a\<in>set acts. chipAction a) \<longrightarrow>
         betsWithinChips (players (foldl applyBet s acts))
       \<and> (handleDeal rnd (foldl applyBet s acts) = rejection (foldl applyBet s acts)
            \<longleftrightarrow> (\<exists>p\<in>set (players (foldl applyBet s acts)). bet p = 0)))"
proof (intro conjI impI ballI)
  fix s' assume amt: "amount \<in> set CHIP_VALUES"
    and s': "s' \<in> {handleBetAdd index amount s, handleBetClear index s, handleBetAllIn index s}"
  from amt have "0 \<le> amount" by (auto dest: CHIP_VALUES_pos)
  with assms s' show "betsWithinChips (players s')"
    by (auto simp: handleBetAdd_inv handleBetClear_inv handleBetAllIn_inv)
  from s' show "s' = s\<lparr>players := players s'\<rparr>"
    by (auto simp: handleBetAdd_def handleBetClear_def handleBetAllIn_def)
  from s' show "length (players s') = length (players s)"
    by (auto simp: handleBetAdd_players handleBetClear_players handleBetAllIn_players)
  from s' show "\<forall>i<length (players s). i \<noteq> index \<longrightarrow> players s' ! i = players s ! i"
    by (auto simp: handleBetAdd_players handleBetClear_players handleBetAllIn_players)
next
  assume "index < length (players s)"
  then show "players (handleBetAdd index amount s) ! index =
           (players s ! index)\<lparr>bet := min (chips (players s ! index))
                                         (bet (players s ! index) + amount)\<rparr>"
    and "players (handleBetClear index s) ! index = (players s ! index)\<lparr>bet := 0\<rparr>"
    and "players (handleBetAllIn index s) ! index =
           (players s ! index)\<lparr>bet := chips (players s ! index)\<rparr>"
    by (simp_all add: handleBetAdd_players handleBetClear_players handleBetAllIn_players)
next
  assume acts: "\<forall>a\<in>set acts. chipAction a"
  with assms show inv: "betsWithinChips (players (foldl applyBet s acts))"
    by (rule applyBets_inv)
  then show "handleDeal rnd (foldl applyBet s acts) = rejection (foldl applyBet s acts)
            \<longleftrightarrow> (\<exists>p\<in>set (players (foldl applyBet s acts)). bet p = 0)"
    by (simp add: handleDeal_rejection_iff invalidBets_within)
qed

theorem bet_adjustments_keep_bets_within_chips_witness:
  "betsWithinChips (players (handleLobbyStart (initialState 2 pushWinDeck)))
   \<and> (100 :: rat) \<in> set CHIP_VALUES
   \<and> list_all chipAction [BetAdd 0 100, BetAdd 1 500, BetAdd 1 500, BetAdd 1 250, BetClear 0]
   \<and> bet (players (handleBetAdd 0 100 (handleLobbyStart (initialState 2 pushWinDeck))) ! 0) = 100
   \<and> betsWithinChips (players (foldl applyBet (handleLobbyStart (initialState 2 pushWinDeck))
         [BetAdd 0 100, BetAdd 1 500, BetAdd 1 500, BetAdd 1 250, BetClear 0]))
   \<and> handleDeal (\<lambda>i. 0) (foldl applyBet (handleLobbyStart (initialState 2 pushWinDeck))
         [BetAdd 0 100, BetAdd 1 500, BetAdd 1 500, BetAdd 1 250, BetClear 0])
       = rejection (foldl applyBet (handleLobbyStart (initialState 2 pushWinDeck))
         [BetAdd 0 100, BetAdd 1 500, BetAdd 1 500, BetAdd 1 250, BetClear 0])"
proof -
  let ?s = "handleLobbyStart (initialState 2 pushWinDeck)"
  let ?acts = "[BetAdd 0 100, BetAdd 1 500, BetAdd 1 500, BetAdd 1 250, BetClear 0]"
  have inv: "betsWithinChips (players ?s)" by code_simp
  have amt: "(100 :: rat) \<in> set CHIP_VALUES" by (simp add: CHIP_VALUES_def)
  have acts: "\<forall>a\<in>set ?acts. chipAction a" by (simp add: CHIP_VALUES_def)
  have idx: "0 < length (players ?s)" by code_simp
  have chips0: "chips (players ?s ! 0) = 1000" "bet (players ?s ! 0) = 0" by code_simp+
  have zero: "\<exists>p\<in>set (players (foldl applyBet ?s ?acts)). bet p = 0" by code_simp
  note t = bet_adjustments_keep_bets_within_chips
    [OF inv, where amount = 100 and index = 0 and acts = ?acts and rnd = "\<lambda>i. 0"]
  from t idx have "players (handleBetAdd 0 100 ?s) ! 0 =
      (players ?s ! 0)\<lparr>bet := min (chips (players ?s ! 0)) (bet (players ?s ! 0) + 100)\<rparr>"
    by blast
  then have b: "bet (players (handleBetAdd 0 100 ?s) ! 0) = 100" by (simp add: chips0)
  from t acts zero have c: "betsWithinChips (players (foldl applyBet ?s ?acts))
      \<and> handleDeal (\<lambda>i. 0) (foldl applyBet ?s ?acts) = rejection (foldl applyBet ?s ?acts)"
    by blast
  from inv amt acts b c show ?thesis by (simp add: list_all_iff)
qed

subsection \<open>The initial deal\<close>

lemma ensureDeck_length: "15 \<le> length (ensureDeck rnd dk)"
  by (simp add: ensureDeck_def length_shuffle length_createDeck)

lemma dealPlayers_rev:
  "length ps \<le> length r \<Longrightarrow>
   dealPlayers (rev r) ps =
     Inr (rev (drop (length ps) r), map (\<lambda>(p, c). p\<lparr>hand := hand p @ [c]\<rparr>) (zip ps r))"
proof (induction ps arbitrary: r)
  case Nil
  then show ?case by simp
next
  case (Cons p ps)
  then obtain c r' where r: "r = c # r'" by (cases r) auto
  with Cons.prems have "length ps \<le> length r'" by simp
  from Cons.IH [OF this] r show ?case by (simp add: drawCard_snoc)
qed

lemma dealRound_rev:
  assumes "length ps < length r"
  shows "dealRound (rev r) ps d =
     Inr (rev (drop (Suc (length ps)) r),
          map (\<lambda>(p, c). p\<lparr>hand := hand p @ [c]\<rparr>) (zip ps r),
          d\<lparr>dhand := dhand d @ [r ! length ps]\<rparr>)"
proof -
  from assms have "drop (length ps) r = r ! length ps # drop (Suc (length ps)) r"
    by (simp add: Cons_nth_drop_Suc)
  then have "drawCard (rev (drop (length ps) r)) =
      (Some (r ! length ps), rev (drop (Suc (length ps)) r))"
    by (simp add: drawCard_snoc)
  with assms show ?thesis by (simp add: dealRound_def dealPlayers_rev)
qed

lemma dealInitial_rev:
  assumes "2 * length ps + 2 \<le> length (ensureDeck rnd dk)"
  shows "dealInitial rnd dk ps =
     (let r = rev (ensureDeck rnd dk); n = length ps
      in Inr (rev (drop (2 * n + 2) r), mapIdx (dealtSeat r n) ps,
              \<lparr>dhand = [r ! n, r ! (2 * n + 1)], hidden = True\<rparr>))"
proof -
  define r where "r = rev (ensureDeck rnd dk)"
  define n where "n = length ps"
  define ps0 where "ps0 = map (\<lambda>p. p\<lparr>hand := [], status := Active, result := NoResult\<rparr>) ps"
  define ps1 where "ps1 = map (\<lambda>(p, c). p\<lparr>hand := hand p @ [c]\<rparr>) (zip ps0 r)"
  define r2 where "r2 = drop (Suc n) r"
  define ps2 where "ps2 = map (\<lambda>(p, c). p\<lparr>hand := hand p @ [c]\<rparr>) (zip ps1 r2)"
  have len: "2 * n + 2 \<le> length r" using assms by (simp add: r_def n_def)
  have D: "ensureDeck rnd dk = rev r" by (simp add: r_def)
  have l0: "length ps0 = n" by (simp add: ps0_def n_def)
  have l1: "length ps1 = n" using len by (simp add: ps1_def l0)
  have l2: "length ps2 = n" using len by (simp add: ps2_def l1 r2_def)
  have step1: "dealRound (rev r) ps0 \<lparr>dhand = [], hidden = True\<rparr> =
      Inr (rev r2, ps1, \<lparr>dhand = [r ! n], hidden = True\<rparr>)"
    using len dealRound_rev [of ps0 r "\<lparr>dhand = [], hidden = True\<rparr>"]
    by (simp add: l0 ps1_def r2_def)
  have step2: "dealRound (rev r2) ps1 \<lparr>dhand = [r ! n], hidden = True\<rparr> =
      Inr (rev (drop (2 * n + 2) r), ps2, \<lparr>dhand = [r ! n, r ! (2 * n + 1)], hidden = True\<rparr>)"
    using len dealRound_rev [of ps1 r2 "\<lparr>dhand = [r ! n], hidden = True\<rparr>"]
    by (simp add: l1 ps2_def r2_def add.commute mult_2)
  have final: "map (\<lambda>p. if isBlackjack (hand p) then p\<lparr>status := Blackjack\<rparr> else p) ps2
      = mapIdx (dealtSeat r n) ps"
  proof (rule nth_equalityI)
    show "length (map (\<lambda>p. if isBlackjack (hand p) then p\<lparr>status := Blackjack\<rparr> else p) ps2)
        = length (mapIdx (dealtSeat r n) ps)"
      by (simp add: l2 length_mapIdx n_def)
  next
    fix i assume "i < length (map (\<lambda>p. if isBlackjack (hand p) then p\<lparr>status := Blackjack\<rparr> else p) ps2)"
    then have i: "i < n" by (simp add: l2)
    with len have "ps2 ! i = (ps ! i)\<lparr>hand := [r ! i, r ! (n + 1 + i)], status := Active,
                                      result := NoResult\<rparr>"
      by (simp add: ps2_def ps1_def ps0_def r2_def l1 l0 n_def add.commute)
    with i show "map (\<lambda>p. if isBlackjack (hand p) then p\<lparr>status := Blackjack\<rparr> else p) ps2 ! i
        = mapIdx (dealtSeat r n) ps ! i"
      by (simp add: l2 nth_mapIdx n_def dealtSeat_def Let_def)
  qed
  show ?thesis
    unfolding dealInitial_def Let_def D
    using step1 step2 final
    by (simp add: ps0_def [symmetric] r_def [symmetric] n_def [symmetric] D)
qed

lemma scanActive_found:
  assumes "scanActive ps i \<noteq> - 1"
  shows "\<exists>j. scanActive ps i = int j \<and> i \<le> j \<and> j < length ps \<and> status (ps ! j) = Active
             \<and> (\<forall>k. i \<le> k \<and> k < j \<longrightarrow> status (ps ! k) \<noteq> Active)"
proof -
  from assms obtain j0 where "i \<le> j0 \<and> j0 < length ps \<and> status (ps ! j0) = Active"
    by (auto simp: scanActive_none)
  then have "\<exists>j. i \<le> j \<and> j < length ps \<and> status (ps ! j) = Active" by blast
  then obtain j where j: "i \<le> j \<and> j < length ps \<and> status (ps ! j) = Active"
    and least: "\<forall>m<j. \<not> (i \<le> m \<and> m < length ps \<and> status (ps ! m) = Active)"
    by (auto simp: exists_least_iff [of "\<lambda>j. i \<le> j \<and> j < length ps \<and> status (ps ! j) = Active"])
  from j least have "\<forall>k. i \<le> k \<and> k < j \<longrightarrow> status (ps ! k) \<noteq> Active" by auto
  with j scanActive_some [of i j ps] show ?thesis by blast
qed

lemma nextActiveIndex_first_found:
  assumes "nextActiveIndex ps (- 1) \<noteq> - 1"
  shows "\<exists>j. nextActiveIndex ps (- 1) = int j \<and> j < length ps \<and> status (ps ! j) = Active
             \<and> (\<forall>k<j. status (ps ! k) \<noteq> Active)"
  using scanActive_found [of ps 0] assms by (simp add: nextActiveIndex_def)

lemma nextActiveIndex_found:
  assumes "nextActiveIndex ps (int i) \<noteq> - 1"
  shows "\<exists>j. nextActiveIndex ps (int i) = int j \<and> i < j \<and> j < length ps
             \<and> status (ps ! j) = Active
             \<and> (\<forall>k. i < k \<and> k < j \<longrightarrow> status (ps ! k) \<noteq> Active)"
  using scanActive_found [of ps "Suc i"] assms
  by (simp add: nextActiveIndex_def nat_add_distrib Suc_le_eq)

lemma foldl_bet_sum: "foldl (\<lambda>sum p. sum + bet p) a ps = a + sum_list (map bet ps)"
  by (induction ps arbitrary: a) simp_all

text \<open>
  Claim C8. When the deck in use holds the cards the deal needs, the deal of \<open>n\<close> seats
  takes the cards off the end of the deck in this order: the first card of each seat in
  seat order, the dealer's first card, the second card of each seat in seat order, the
  dealer's second card. With \<open>r\<close> the deck read from its end, seat \<open>i\<close> holds
  \<open>r ! i\<close> and \<open>r ! (n + 1 + i)\<close>, the dealer holds \<open>r ! n\<close> and \<open>r ! (2 * n + 1)\<close>, and
  the remaining deck is \<open>r\<close> without its first \<open>2 * n + 2\<close> cards. A seat has status
  blackjack exactly when its two cards total 21, every other seat is active, and the dealer
  is marked hidden (the flag under which the first card is shown face down). The examples
  are the deal of queen, eight and jack, nine to two seats, both active, and the deal of
  ace and jack to a solo seat, marked blackjack.
\<close>

theorem dealInitial_round_robin:
  assumes "2 * length ps + 2 \<le> length (ensureDeck rnd dk)"
  shows "\<exists>nextDeck dealt nextDealer.
           dealInitial rnd dk ps = Inr (nextDeck, dealt, nextDealer)
         \<and> (let r = rev (ensureDeck rnd dk); n = length ps
            in nextDeck = rev (drop (2 * n + 2) r)
             \<and> length dealt = n
             \<and> (\<forall>i<n. hand (dealt ! i) = [r ! i, r ! (n + 1 + i)]
                     \<and> status (dealt ! i) =
                         (if calculateHand [r ! i, r ! (n + 1 + i)] = 21 then Blackjack
                          else Active))
             \<and> dhand nextDealer = [r ! n, r ! (2 * n + 1)]
             \<and> hidden nextDealer)"
  using dealInitial_rev [OF assms]
  by (simp add: Let_def length_mapIdx nth_mapIdx dealtSeat_def isBlackjack_def)

theorem dealInitial_round_robin_witness:
  "2 * length (reservedPlayers (players betsPlaced)) + 2 \<le> length (ensureDeck (\<lambda>i. 0) pushWinDeck)
   \<and> (\<exists>nextDeck dealt nextDealer.
         dealInitial (\<lambda>i. 0) pushWinDeck (reservedPlayers (players betsPlaced))
           = Inr (nextDeck, dealt, nextDealer)
       \<and> hand (dealt ! 0) = [mkCard Hearts ''Q'', mkCard Hearts ''8'']
       \<and> hand (dealt ! 1) = [mkCard Diamonds ''J'', mkCard Diamonds ''9'']
       \<and> dhand nextDealer = [mkCard Spades ''K'', mkCard Spades ''8'']
       \<and> hidden nextDealer
       \<and> status (dealt ! 0) = Active
       \<and> status (dealt ! 1) = Active
       \<and> length nextDeck = 46)
   \<and> 2 * length (reservedPlayers (players soloBet)) + 2 \<le> length (ensureDeck (\<lambda>i. 0) exampleDeck)
   \<and> (\<exists>nextDeck dealt nextDealer.
         dealInitial (\<lambda>i. 0) exampleDeck (reservedPlayers (players soloBet))
           = Inr (nextDeck, dealt, nextDealer)
       \<and> hand (dealt ! 0) = [mkCard Clubs ''A'', mkCard Clubs ''J'']
       \<and> calculateHand (hand (dealt ! 0)) = 21
       \<and> status (dealt ! 0) = Blackjack
       \<and> dhand nextDealer = [mkCard Clubs ''Q'', mkCard Clubs ''10'']
       \<and> hidden nextDealer
       \<and> length nextDeck = 48)"
proof -
  let ?ps = "reservedPlayers (players betsPlaced)"
  let ?r = "rev (ensureDeck (\<lambda>i. 0) pushWinDeck)"
  have enough: "2 * length ?ps + 2 \<le> length (ensureDeck (\<lambda>i. 0) pushWinDeck)" by code_simp
  have n: "length ?ps = 2" by code_simp
  have r: "?r ! 0 = mkCard Hearts ''Q''" "?r ! 1 = mkCard Diamonds ''J''"
    "?r ! 2 = mkCard Spades ''K''" "?r ! 3 = mkCard Hearts ''8''"
    "?r ! 4 = mkCard Diamonds ''9''" "?r ! 5 = mkCard Spades ''8''"
    "length (rev (drop 6 ?r)) = 46"
    by code_simp+
  have t0: "calculateHand [mkCard Hearts ''Q'', mkCard Hearts ''8''] \<noteq> 21"
    and t1: "calculateHand [mkCard Diamonds ''J'', mkCard Diamonds ''9''] \<noteq> 21" by code_simp+
  from dealInitial_round_robin [OF enough] obtain nextDeck dealt nextDealer where
    d: "dealInitial (\<lambda>i. 0) pushWinDeck ?ps = Inr (nextDeck, dealt, nextDealer)"
    and rest: "let r = ?r; n = length ?ps
            in nextDeck = rev (drop (2 * n + 2) r)
             \<and> length dealt = n
             \<and> (\<forall>i<n. hand (dealt ! i) = [r ! i, r ! (n + 1 + i)]
                     \<and> status (dealt ! i) =
                         (if calculateHand [r ! i, r ! (n + 1 + i)] = 21 then Blackjack
                          else Active))
             \<and> dhand nextDealer = [r ! n, r ! (2 * n + 1)]
             \<and> hidden nextDealer"
    by blast
  from rest have a: "nextDeck = rev (drop 6 ?r)" "dhand nextDealer = [?r ! 2, ?r ! 5]"
    "hidden nextDealer"
    "\<forall>i<2. hand (dealt ! i) = [?r ! i, ?r ! Suc (Suc (Suc i))]
          \<and> status (dealt ! i) =
              (if calculateHand [?r ! i, ?r ! Suc (Suc (Suc i))] = 21 then Blackjack else Active)"
    by (simp_all add: Let_def n)
  from a(4) have h0: "hand (dealt ! 0) = [?r ! 0, ?r ! 3]"
    and s0: "status (dealt ! 0) = (if calculateHand [?r ! 0, ?r ! 3] = 21 then Blackjack else Active)"
    and h1: "hand (dealt ! 1) = [?r ! 1, ?r ! 4]"
    and s1: "status (dealt ! 1) = (if calculateHand [?r ! 1, ?r ! 4] = 21 then Blackjack else Active)"
    by (simp_all add: eval_nat_numeral)
  have c0: "hand (dealt ! 0) = [mkCard Hearts ''Q'', mkCard Hearts ''8'']"
    using h0 r(1) r(4) by (simp only:)
  have c1: "hand (dealt ! 1) = [mkCard Diamonds ''J'', mkCard Diamonds ''9'']"
    using h1 r(2) r(5) by (simp only:)
  have cd: "dhand nextDealer = [mkCard Spades ''K'', mkCard Spades ''8'']"
    using a(2) r(3) r(6) by (simp only:)
  have cl: "length nextDeck = 46" using a(1) r(7) by (simp only:)
  from s0 r(1) r(4) t0 have s0': "status (dealt ! 0) = Active" by (simp only: if_False)
  from s1 r(2) r(5) t1 have s1': "status (dealt ! 1) = Active" by (simp only: if_False)
  from d c0 c1 cd a(3) s0' s1' cl
  have first: "\<exists>nextDeck dealt nextDealer.
         dealInitial (\<lambda>i. 0) pushWinDeck (reservedPlayers (players betsPlaced))
           = Inr (nextDeck, dealt, nextDealer)
       \<and> hand (dealt ! 0) = [mkCard Hearts ''Q'', mkCard Hearts ''8'']
       \<and> hand (dealt ! 1) = [mkCard Diamonds ''J'', mkCard Diamonds ''9'']
       \<and> dhand nextDealer = [mkCard Spades ''K'', mkCard Spades ''8'']
       \<and> hidden nextDealer
       \<and> status (dealt ! 0) = Active
       \<and> status (dealt ! 1) = Active
       \<and> length nextDeck = 46" by blast
  let ?qs = "reservedPlayers (players soloBet)"
  let ?q = "rev (ensureDeck (\<lambda>i. 0) exampleDeck)"
  have enough': "2 * length ?qs + 2 \<le> length (ensureDeck (\<lambda>i. 0) exampleDeck)" by code_simp
  have m: "length ?qs = 1" by code_simp
  have q: "?q ! 0 = mkCard Clubs ''A''" "?q ! 1 = mkCard Clubs ''Q''"
    "?q ! 2 = mkCard Clubs ''J''" "?q ! 3 = mkCard Clubs ''10''"
    "length (rev (drop 4 ?q)) = 48"
    by code_simp+
  have bj: "calculateHand [mkCard Clubs ''A'', mkCard Clubs ''J''] = 21" by code_simp
  from dealInitial_round_robin [OF enough'] obtain nextDeck' dealt' nextDealer' where
    d': "dealInitial (\<lambda>i. 0) exampleDeck ?qs = Inr (nextDeck', dealt', nextDealer')"
    and rest': "let r = ?q; n = length ?qs
            in nextDeck' = rev (drop (2 * n + 2) r)
             \<and> length dealt' = n
             \<and> (\<forall>i<n. hand (dealt' ! i) = [r ! i, r ! (n + 1 + i)]
                     \<and> status (dealt' ! i) =
                         (if calculateHand [r ! i, r ! (n + 1 + i)] = 21 then Blackjack
                          else Active))
             \<and> dhand nextDealer' = [r ! n, r ! (2 * n + 1)]
             \<and> hidden nextDealer'"
    by blast
  from rest' have b: "nextDeck' = rev (drop 4 ?q)" "dhand nextDealer' = [?q ! 1, ?q ! 3]"
    "hidden nextDealer'"
    "hand (dealt' ! 0) = [?q ! 0, ?q ! 2]"
    "status (dealt' ! 0) = (if calculateHand [?q ! 0, ?q ! 2] = 21 then Blackjack else Active)"
    by (simp_all add: Let_def m eval_nat_numeral)
  have e0: "hand (dealt' ! 0) = [mkCard Clubs ''A'', mkCard Clubs ''J'']"
    using b(4) q(1) q(3) by (simp only:)
  have ed: "dhand nextDealer' = [mkCard Clubs ''Q'', mkCard Clubs ''10'']"
    using b(2) q(2) q(4) by (simp only:)
  have el: "length nextDeck' = 48" using b(1) q(5) by (simp only:)
  from b(5) q(1) q(3) bj have es: "status (dealt' ! 0) = Blackjack" by simp
  from e0 bj have et: "calculateHand (hand (dealt' ! 0)) = 21" by (simp only:)
  from d' e0 et es ed b(3) el
  have second: "\<exists>nextDeck dealt nextDealer.
         dealInitial (\<lambda>i. 0) exampleDeck (reservedPlayers (players soloBet))
           = Inr (nextDeck, dealt, nextDealer)
       \<and> hand (dealt ! 0) = [mkCard Clubs ''A'', mkCard Clubs ''J'']
       \<and> calculateHand (hand (dealt ! 0)) = 21
       \<and> status (dealt ! 0) = Blackjack
       \<and> dhand nextDealer = [mkCard Clubs ''Q'', mkCard Clubs ''10'']
       \<and> hidden nextDealer
       \<and> length nextDeck = 48" by blast
  from enough first enough' second show ?thesis by (intro conjI)
qed

lemma handleDeal_dealt:
  assumes valid: "\<not> invalidBets (players s)"
    and deal: "dealInitial rnd (deck s) (reservedPlayers (players s)) = Inr (nextDeck, dealt, nextDealer)"
  shows "handleDeal rnd s =
     (let potIncrease = sum_list (map bet (players s));
          s1 = s\<lparr>deck := nextDeck, players := dealt, dealer := nextDealer,
                 phase := Playing, message := ''Choose your action.''\<rparr>;
          s2 = (if isMulti s then s1\<lparr>pot := pot s + potIncrease\<rparr> else s1)
      in if nextActiveIndex dealt (- 1) = - 1
         then handleDealerTurn s2 dealt nextDealer nextDeck
                (if isMulti s then pot s + potIncrease else pot s)
         else Inr (s2\<lparr>currentIndex := nat (nextActiveIndex dealt (- 1))\<rparr>))"
  using assms by (simp add: handleDeal_def Let_def foldl_bet_sum)

text \<open>
  Claim C3. A deal is rejected exactly when some bet is not strictly positive or exceeds
  the chips of its seat. The rejected deal only sets the message that names the reason:
  players, dealer, deck, pot, phase, acting index and round number are as before. When
  every bet is valid (and the deck in use holds the cards of the deal) the cards are dealt
  to the players with their bets debited from their chips, and the table either enters the
  playing phase at the first active seat or, when no seat is active, goes on to the dealer
  turn.
\<close>

theorem handleDeal_validation:
  "(handleDeal rnd s = rejection s \<longleftrightarrow> \<not> (\<forall>p\<in>set (players s). 0 < bet p \<and> bet p \<le> chips p))
   \<and> (\<exists>s'. rejection s = Inr s'
           \<and> message s' = ''Each player must bet more than $0 and within their chip balance.''
           \<and> players s' = players s \<and> dealer s' = dealer s \<and> deck s' = deck s
           \<and> pot s' = pot s \<and> phase s' = phase s \<and> currentIndex s' = currentIndex s
           \<and> roundNo s' = roundNo s)
   \<and> ((\<forall>p\<in>set (players s). 0 < bet p \<and> bet p \<le> chips p)
        \<and> 2 * length (players s) + 2 \<le> length (ensureDeck rnd (deck s)) \<longrightarrow>
        (\<exists>nextDeck dealt nextDealer.
            dealInitial rnd (deck s) (reservedPlayers (players s)) = Inr (nextDeck, dealt, nextDealer)
          \<and> length dealt = length (players s)
          \<and> (\<forall>i<length (players s).
                 chips (dealt ! i) = chips (players s ! i) - bet (players s ! i)
               \<and> bet (dealt ! i) = bet (players s ! i))
          \<and> ((\<exists>j<length dealt. status (dealt ! j) = Active) \<longrightarrow>
               (\<exists>s'. handleDeal rnd s = Inr s' \<and> phase s' = Playing \<and> players s' = dealt
                    \<and> deck s' = nextDeck \<and> dealer s' = nextDealer
                    \<and> pot s' = (if isMulti s then pot s + sum_list (map bet (players s))
                                else pot s)
                    \<and> currentIndex s' < length dealt
                    \<and> status (dealt ! currentIndex s') = Active
                    \<and> (\<forall>k<currentIndex s'. status (dealt ! k) \<noteq> Active)))
          \<and> ((\<forall>j<length dealt. status (dealt ! j) \<noteq> Active) \<longrightarrow>
               handleDeal rnd s =
                 handleDealerTurn
                   (s\<lparr>deck := nextDeck, players := dealt, dealer := nextDealer, phase := Playing,
                      message := ''Choose your action.'',
                      pot := (if isMulti s then pot s + sum_list (map bet (players s))
                              else pot s)\<rparr>)
                   dealt nextDealer nextDeck
                   (if isMulti s then pot s + sum_list (map bet (players s)) else pot s))))"
proof (intro conjI impI)
  show "handleDeal rnd s = rejection s \<longleftrightarrow> \<not> (\<forall>p\<in>set (players s). 0 < bet p \<and> bet p \<le> chips p)"
    by (simp only: handleDeal_rejection_iff invalidBets_iff)
  show "\<exists>s'. rejection s = Inr s'
           \<and> message s' = ''Each player must bet more than $0 and within their chip balance.''
           \<and> players s' = players s \<and> dealer s' = dealer s \<and> deck s' = deck s
           \<and> pot s' = pot s \<and> phase s' = phase s \<and> currentIndex s' = currentIndex s
           \<and> roundNo s' = roundNo s"
    by (simp add: rejection_def)
next
  assume a: "(\<forall>p\<in>set (players s). 0 < bet p \<and> bet p \<le> chips p)
        \<and> 2 * length (players s) + 2 \<le> length (ensureDeck rnd (deck s))"
  then have valid: "\<not> invalidBets (players s)" by (simp add: invalidBets_iff)
  define r where "r = rev (ensureDeck rnd (deck s))"
  define n where "n = length (players s)"
  define nextDeck where "nextDeck = rev (drop (2 * n + 2) r)"
  define dealt where "dealt = mapIdx (dealtSeat r n) (reservedPlayers (players s))"
  define nextDealer where "nextDealer = \<lparr>dhand = [r ! n, r ! (2 * n + 1)], hidden = True\<rparr>"
  from a have "2 * length (reservedPlayers (players s)) + 2 \<le> length (ensureDeck rnd (deck s))"
    by (simp add: reservedPlayers_def)
  from dealInitial_rev [OF this]
  have deal: "dealInitial rnd (deck s) (reservedPlayers (players s)) = Inr (nextDeck, dealt, nextDealer)"
    by (simp add: Let_def r_def n_def nextDeck_def dealt_def nextDealer_def reservedPlayers_def)
  have len: "length dealt = length (players s)"
    by (simp add: dealt_def length_mapIdx reservedPlayers_def)
  have debit: "\<forall>i<length (players s).
                 chips (dealt ! i) = chips (players s ! i) - bet (players s ! i)
               \<and> bet (dealt ! i) = bet (players s ! i)"
    by (simp add: dealt_def nth_mapIdx reservedPlayers_def dealtSeat_def Let_def)
  note hd = handleDeal_dealt [OF valid deal]
  have act: "(\<exists>j<length dealt. status (dealt ! j) = Active) \<longrightarrow>
               (\<exists>s'. handleDeal rnd s = Inr s' \<and> phase s' = Playing \<and> players s' = dealt
                    \<and> deck s' = nextDeck \<and> dealer s' = nextDealer
                    \<and> pot s' = (if isMulti s then pot s + sum_list (map bet (players s))
                                else pot s)
                    \<and> currentIndex s' < length dealt
                    \<and> status (dealt ! currentIndex s') = Active
                    \<and> (\<forall>k<currentIndex s'. status (dealt ! k) \<noteq> Active))"
  proof
    assume "\<exists>j<length dealt. status (dealt ! j) = Active"
    then have "nextActiveIndex dealt (- 1) \<noteq> - 1" by (simp add: nextActiveIndex_first_none)
    from nextActiveIndex_first_found [OF this] obtain j where
      j: "nextActiveIndex dealt (- 1) = int j" "j < length dealt" "status (dealt ! j) = Active"
         "\<forall>k<j. status (dealt ! k) \<noteq> Active" by blast
    with hd show "\<exists>s'. handleDeal rnd s = Inr s' \<and> phase s' = Playing \<and> players s' = dealt
                    \<and> deck s' = nextDeck \<and> dealer s' = nextDealer
                    \<and> pot s' = (if isMulti s then pot s + sum_list (map bet (players s))
                                else pot s)
                    \<and> currentIndex s' < length dealt
                    \<and> status (dealt ! currentIndex s') = Active
                    \<and> (\<forall>k<currentIndex s'. status (dealt ! k) \<noteq> Active)"
      by (simp add: Let_def)
  qed
  have noact: "(\<forall>j<length dealt. status (dealt ! j) \<noteq> Active) \<longrightarrow>
               handleDeal rnd s =
                 handleDealerTurn
                   (s\<lparr>deck := nextDeck, players := dealt, dealer := nextDealer, phase := Playing,
                      message := ''Choose your action.'',
                      pot := (if isMulti s then pot s + sum_list (map bet (players s))
                              else pot s)\<rparr>)
                   dealt nextDealer nextDeck
                   (if isMulti s then pot s + sum_list (map bet (players s)) else pot s)"
  proof
    assume "\<forall>j<length dealt. status (dealt ! j) \<noteq> Active"
    then have "nextActiveIndex dealt (- 1) = - 1" by (simp add: nextActiveIndex_first_none)
    with hd show "handleDeal rnd s =
                 handleDealerTurn
                   (s\<lparr>deck := nextDeck, players := dealt, dealer := nextDealer, phase := Playing,
                      message := ''Choose your action.'',
                      pot := (if isMulti s then pot s + sum_list (map bet (players s))
                              else pot s)\<rparr>)
                   dealt nextDealer nextDeck
                   (if isMulti s then pot s + sum_list (map bet (players s)) else pot s)"
      by (simp add: Let_def)
  qed
  from deal len debit act noact
  show "\<exists>nextDeck dealt nextDealer.
            dealInitial rnd (deck s) (reservedPlayers (players s)) = Inr (nextDeck, dealt, nextDealer)
          \<and> length dealt = length (players s)
          \<and> (\<forall>i<length (players s).
                 chips (dealt ! i) = chips (players s ! i) - bet (players s ! i)
               \<and> bet (dealt ! i) = bet (players s ! i))
          \<and> ((\<exists>j<length dealt. status (dealt ! j) = Active) \<longrightarrow>
               (\<exists>s'. handleDeal rnd s = Inr s' \<and> phase s' = Playing \<and> players s' = dealt
                    \<and> deck s' = nextDeck \<and> dealer s' = nextDealer
                    \<and> pot s' = (if isMulti s then pot s + sum_list (map bet (players s))
                                else pot s)
                    \<and> currentIndex s' < length dealt
                    \<and> status (dealt ! currentIndex s') = Active
                    \<and> (\<forall>k<currentIndex s'. status (dealt ! k) \<noteq> Active)))
          \<and> ((\<forall>j<length dealt. status (dealt ! j) \<noteq> Active) \<longrightarrow>
               handleDeal rnd s =
                 handleDealerTurn
                   (s\<lparr>deck := nextDeck, players := dealt, dealer := nextDealer, phase := Playing,
                      message := ''Choose your action.'',
                      pot := (if isMulti s then pot s + sum_list (map bet (players s))
                              else pot s)\<rparr>)
                   dealt nextDealer nextDeck
                   (if isMulti s then pot s + sum_list (map bet (players s)) else pot s))"
    by blast
qed

theorem handleDeal_validation_witness:
  "handleDeal (\<lambda>i. 0) (handleLobbyStart (initialState 2 pushWinDeck))
     = rejection (handleLobbyStart (initialState 2 pushWinDeck))
   \<and> list_all (\<lambda>p. 0 < bet p \<and> bet p \<le> chips p) (players betsPlaced)
   \<and> 2 * length (players betsPlaced) + 2 \<le> length (ensureDeck (\<lambda>i. 0) (deck betsPlaced))
   \<and> (\<exists>s'. handleDeal (\<lambda>i. 0) betsPlaced = Inr s' \<and> phase s' = Playing
           \<and> chips (players s' ! 0) = 900 \<and> chips (players s' ! 1) = 800
           \<and> pot s' = 300 \<and> currentIndex s' = 0)"
proof -
  let ?a = "handleLobbyStart (initialState 2 pushWinDeck)"
  let ?b = "betsPlaced"
  let ?rnd = "\<lambda>i::nat. 0::nat"
  have inv: "\<not> (\<forall>p\<in>set (players ?a). 0 < bet p \<and> bet p \<le> chips p)" by code_simp
  have val: "\<forall>p\<in>set (players ?b). 0 < bet p \<and> bet p \<le> chips p" by code_simp
  have enough: "2 * length (players ?b) + 2 \<le> length (ensureDeck ?rnd (deck ?b))" by code_simp
  from handleDeal_validation [where rnd = ?rnd and s = ?a] inv
  have rej: "handleDeal ?rnd ?a = rejection ?a" by blast
  from handleDeal_validation [where rnd = ?rnd and s = ?b] val enough
  obtain nextDeck dealt nextDealer where
    d: "dealInitial ?rnd (deck ?b) (reservedPlayers (players ?b)) = Inr (nextDeck, dealt, nextDealer)"
    and len: "length dealt = length (players ?b)"
    and debit: "\<forall>i<length (players ?b).
                 chips (dealt ! i) = chips (players ?b ! i) - bet (players ?b ! i)
               \<and> bet (dealt ! i) = bet (players ?b ! i)"
    and act: "(\<exists>j<length dealt. status (dealt ! j) = Active) \<longrightarrow>
               (\<exists>s'. handleDeal ?rnd ?b = Inr s' \<and> phase s' = Playing \<and> players s' = dealt
                    \<and> deck s' = nextDeck \<and> dealer s' = nextDealer
                    \<and> pot s' = (if isMulti ?b then pot ?b + sum_list (map bet (players ?b))
                                else pot ?b)
                    \<and> currentIndex s' < length dealt
                    \<and> status (dealt ! currentIndex s') = Active
                    \<and> (\<forall>k<currentIndex s'. status (dealt ! k) \<noteq> Active))"
    by blast
  have ev: "case dealInitial ?rnd (deck ?b) (reservedPlayers (players ?b)) of
              Inl e \<Rightarrow> False | Inr (dk, ps, dl) \<Rightarrow> status (ps ! 0) = Active"
    by code_simp
  with d have a0: "status (dealt ! 0) = Active" by simp
  have n: "length (players ?b) = 2" by code_simp
  have vals: "chips (players ?b ! 0) = 1000" "bet (players ?b ! 0) = 100"
    "chips (players ?b ! 1) = 1000" "bet (players ?b ! 1) = 200"
    "isMulti ?b" "pot ?b = 0" "sum_list (map bet (players ?b)) = 300"
    by code_simp+
  from a0 len n have "\<exists>j<length dealt. status (dealt ! j) = Active"
    by (intro exI [of _ 0]) simp
  with act obtain s' where s': "handleDeal ?rnd ?b = Inr s'" "phase s' = Playing"
    "players s' = dealt"
    "pot s' = (if isMulti ?b then pot ?b + sum_list (map bet (players ?b)) else pot ?b)"
    "\<forall>k<currentIndex s'. status (dealt ! k) \<noteq> Active"
    by blast
  from s'(5) a0 have ci: "currentIndex s' = 0" by (cases "currentIndex s'") auto
  from debit n vals have c: "chips (dealt ! 0) = 900" "chips (dealt ! 1) = 800" by simp_all
  from s'(4) vals have p: "pot s' = 300" by simp
  from val have val': "list_all (\<lambda>p. 0 < bet p \<and> bet p \<le> chips p) (players ?b)"
    by (simp add: list_all_iff)
  from s'(1,2,3) c p ci have "\<exists>s'. handleDeal ?rnd ?b = Inr s' \<and> phase s' = Playing
           \<and> chips (players s' ! 0) = 900 \<and> chips (players s' ! 1) = 800
           \<and> pot s' = 300 \<and> currentIndex s' = 0" by blast
  with rej val' enough show ?thesis by blast
qed

subsection \<open>Hit, stand and the turn pointer\<close>



lemma status_update_same: "status p = st \<Longrightarrow> p\<lparr>hand := h, status := st\<rparr> = p\<lparr>hand := h\<rparr>"
  by (cases p) simp

lemma handleHit_unfold:
  assumes ci: "currentIndex s < length (players s)"
    and act: "status (players s ! currentIndex s) = Active"
    and dk: "deck s \<noteq> []"
  shows "handleHit s =
    (let ci = currentIndex s;
         p = players s ! ci;
         h = hand p @ [last (deck s)];
         t = calculateHand h;
         st = (if t > 21 then Bust else if t = 21 then Stand else Active);
         ps' = (players s)[ci := p\<lparr>hand := h, status := st\<rparr>];
         s1 = s\<lparr>deck := butlast (deck s), players := ps'\<rparr>
     in if st \<noteq> Active then advanceTurn s1 ps' (dealer s) (butlast (deck s)) (pot s) else Inr s1)"
  using assms
  by (simp add: handleHit_def drawCard_nonempty mapIdx_update Let_def status_update_same)



lemma runRnd_drawOrder: "shuffle runRnd createDeck = rev drawOrder"
  by code_simp





subsection \<open>Settlement\<close>

lemma handleDealerTurn_unfold:
  assumes "dealerLoop (dhand d) dk = Inr (dh, dk')"
  shows "handleDealerTurn s ps d dk nextPot =
    (let rs = resolvedPlayers dh ps;
         s1 = (if isMulti s
               then s\<lparr>pot := (if totalWeight rs > 0 then 0 else poolAfterPushes nextPot rs),
                      players := finalPlayers (poolAfterPushes nextPot rs) rs\<rparr>
               else s\<lparr>players := payoutPlayers rs\<rparr>)
     in Inr (s1\<lparr>dealer := d\<lparr>hidden := False, dhand := dh\<rparr>, deck := dk', phase := RoundEnd,
                message := ''Round complete. Start the next round when ready.''\<rparr>))"
  using assms by (simp add: handleDealerTurn_def resolvedPlayers_def Let_def)

lemma poolAfterPushes_eq: "poolAfterPushes nextPot rs = nextPot - pushRefunds rs"
proof -
  have "foldl (\<lambda>potPool p. potPool - bet p) a xs = a - sum_list (map bet xs)" for a xs
    by (induction xs arbitrary: a) simp_all
  then show ?thesis by (simp add: poolAfterPushes_def pushRefunds_def)
qed

lemma shareWeight_eq: "shareWeight p = (if isWinner p then weight p else 0)"
  by (simp add: shareWeight_def isWinner_def weight_def)

lemma totalWeight_eq: "totalWeight rs = winnerWeightSum rs"
proof -
  have f: "foldl (\<lambda>sum p. sum + weight p) a xs = a + sum_list (map weight xs)" for a xs
    by (induction xs arbitrary: a) simp_all
  have "sum_list (map weight (filter isWinner rs)) = sum_list (map shareWeight rs)"
    by (induction rs) (simp_all add: shareWeight_eq)
  then show ?thesis by (simp add: totalWeight_def winnerWeightSum_def f)
qed

lemma shareWeight_nonneg: "0 \<le> bet p \<Longrightarrow> 0 \<le> shareWeight p"
  by (simp add: shareWeight_def)

lemma winnerWeightSum_nonneg: "\<forall>p\<in>set rs. 0 < bet p \<Longrightarrow> 0 \<le> winnerWeightSum rs"
  unfolding winnerWeightSum_def
  by (rule sum_list_nonneg) (auto simp: shareWeight_nonneg less_imp_le)

lemma winnerWeightSum_pos:
  assumes "\<forall>p\<in>set rs. 0 < bet p" "r \<in> set rs" "isWinner r"
  shows "0 < winnerWeightSum rs"
proof -
  from assms have "0 < shareWeight r" by (auto simp: shareWeight_def isWinner_def)
  moreover have "shareWeight r \<le> winnerWeightSum rs"
    unfolding winnerWeightSum_def using assms(1,2)
    by (intro member_le_sum_list) (auto simp: shareWeight_nonneg less_imp_le)
  ultimately show ?thesis by simp
qed

lemma foldl_upd_notin:
  "k \<notin> f ` set xs \<Longrightarrow> foldl (\<lambda>m p. m(f p \<mapsto> v p)) m0 xs k = m0 k"
proof (induction xs arbitrary: m0)
  case Nil
  then show ?case by simp
next
  case (Cons a xs)
  then have notin: "k \<notin> f ` set xs" and neq: "k \<noteq> f a" by auto
  have "foldl (\<lambda>m p. m(f p \<mapsto> v p)) m0 (a # xs) k
      = foldl (\<lambda>m p. m(f p \<mapsto> v p)) (m0(f a \<mapsto> v a)) xs k"
    by (simp only: foldl_Cons)
  also have "\<dots> = (m0(f a \<mapsto> v a)) k" using notin by (rule Cons.IH)
  also have "\<dots> = m0 k" using neq by simp
  finally show ?case .
qed

lemma foldl_upd_in:
  "distinct (map f xs) \<Longrightarrow> x \<in> set xs \<Longrightarrow>
   foldl (\<lambda>m p. m(f p \<mapsto> v p)) m0 xs (f x) = Some (v x)"
proof (induction xs arbitrary: m0)
  case Nil
  then show ?case by simp
next
  case (Cons a xs)
  have step: "foldl (\<lambda>m p. m(f p \<mapsto> v p)) m0 (a # xs) (f x)
      = foldl (\<lambda>m p. m(f p \<mapsto> v p)) (m0(f a \<mapsto> v a)) xs (f x)"
    by (simp only: foldl_Cons)
  show ?case
  proof (cases "x = a")
    case True
    with Cons.prems have notin: "f x \<notin> f ` set xs" by auto
    note step
    also have "foldl (\<lambda>m p. m(f p \<mapsto> v p)) (m0(f a \<mapsto> v a)) xs (f x)
        = (m0(f a \<mapsto> v a)) (f x)"
      using notin by (rule foldl_upd_notin)
    also have "\<dots> = Some (v x)" using True by simp
    finally show ?thesis .
  next
    case False
    with Cons.prems have "distinct (map f xs)" "x \<in> set xs" by auto
    then have "foldl (\<lambda>m p. m(f p \<mapsto> v p)) (m0(f a \<mapsto> v a)) xs (f x) = Some (v x)"
      by (rule Cons.IH)
    with step show ?thesis by (simp only:)
  qed
qed

lemma payoutMap_winner:
  assumes "distinct (map pid rs)" "r \<in> set rs" "isWinner r"
  shows "payoutMap potPool rs (pid r) =
     Some (Math_round (if totalWeight rs > 0 then (potPool * weight r) / totalWeight rs else 0))"
proof -
  from assms(1) have "distinct (map pid (filter isWinner rs))" by (rule distinct_map_filter)
  moreover from assms have "r \<in> set (filter isWinner rs)" by simp
  ultimately show ?thesis unfolding payoutMap_def by (rule foldl_upd_in)
qed

lemma payoutMap_other:
  assumes "distinct (map pid rs)" "r \<in> set rs" "\<not> isWinner r"
  shows "payoutMap potPool rs (pid r) = None"
proof -
  have "pid r \<notin> pid ` set (filter isWinner rs)"
  proof
    assume "pid r \<in> pid ` set (filter isWinner rs)"
    then obtain q where q: "q \<in> set rs" "isWinner q" "pid q = pid r" by auto
    from assms(1) have "inj_on pid (set rs)" by (simp add: distinct_map)
    with q assms(2) have "q = r" by (auto dest: inj_onD)
    with q assms(3) show False by simp
  qed
  then show ?thesis unfolding payoutMap_def by (simp add: foldl_upd_notin)
qed

lemma Math_round_nearest: "\<bar>of_int (Math_round x) - x\<bar> \<le> 1 / 2"
  using of_int_round_abs_le [of x] by (simp add: Math_round_def round_def)

lemma resolvedPlayers_fields:
  "length (resolvedPlayers dh ps) = length ps"
  "map pid (resolvedPlayers dh ps) = map pid ps"
  "i < length ps \<Longrightarrow> bet (resolvedPlayers dh ps ! i) = bet (ps ! i)"
  "i < length ps \<Longrightarrow> chips (resolvedPlayers dh ps ! i) = chips (ps ! i)"
  "i < length ps \<Longrightarrow> roundStartChips (resolvedPlayers dh ps ! i) = roundStartChips (ps ! i)"
  "i < length ps \<Longrightarrow> result (resolvedPlayers dh ps ! i) =
      resolveResult (ps ! i) (calculateHand dh) (isBlackjack dh) (calculateHand dh > 21)"
  by (simp_all add: resolvedPlayers_def)

lemma resolvedPlayers_bets: "\<forall>p\<in>set ps. 0 < bet p \<Longrightarrow> \<forall>p\<in>set (resolvedPlayers dh ps). 0 < bet p"
  by (auto simp: resolvedPlayers_def)

lemma resolveResult_not_NoResult: "resolveResult p t b u \<noteq> NoResult"
  by (simp add: resolveResult_def Let_def)

lemma finalPlayers_nth:
  assumes ids: "distinct (map pid rs)" and bets: "\<forall>p\<in>set rs. 0 < bet p" and i: "i < length rs"
  shows "finalPlayers potPool rs ! i =
     (let r = rs ! i;
          credit = (if result r = Push then bet r
                    else if isWinner r
                    then of_int (Math_round (potPool * (shareWeight r / winnerWeightSum rs)))
                    else 0)
      in r\<lparr>chips := chips r + credit, delta := chips r + credit - roundStartChips r\<rparr>)"
proof -
  from i have mem: "rs ! i \<in> set rs" by simp
  show ?thesis
  proof (cases "isWinner (rs ! i)")
    case True
    from winnerWeightSum_pos [OF bets mem True] have pos: "0 < winnerWeightSum rs" .
    from True have np: "result (rs ! i) \<noteq> Push" by (auto simp: isWinner_def)
    from True have sw: "shareWeight (rs ! i) = weight (rs ! i)" by (simp add: shareWeight_eq)
    from i True np pos payoutMap_winner [OF ids mem True, of potPool] show ?thesis
      by (simp add: finalPlayers_def Let_def totalWeight_eq sw)
  next
    case False
    from i False payoutMap_other [OF ids mem False, of potPool] show ?thesis
      by (simp add: finalPlayers_def Let_def)
  qed
qed

lemma payoutPlayers_nth:
  assumes "i < length rs"
  shows "payoutPlayers rs ! i =
     (let r = rs ! i; finalChips = chips r + bet r * payoutMultiplier (result r)
      in r\<lparr>chips := finalChips, delta := finalChips - roundStartChips r\<rparr>)"
  using assms by (cases "result (rs ! i)") (simp_all add: payoutPlayers_def Let_def)

lemma pooled_settlement_general:
  assumes multi: "isMulti s"
    and loop: "dealerLoop (dhand d) dk = Inr (dh, dk')"
    and ids: "distinct (map pid ps)"
    and bets: "\<forall>p\<in>set ps. 0 < bet p"
  shows "\<exists>s'. handleDealerTurn s ps d dk nextPot = Inr s'
     \<and> (let rs = resolvedPlayers dh ps;
             remaining = nextPot - pushRefunds rs;
             W = winnerWeightSum rs
         in length (players s') = length ps
          \<and> (\<forall>i<length ps.
                result (players s' ! i) = result (rs ! i)
              \<and> (result (rs ! i) = Push \<longrightarrow>
                   chips (players s' ! i) = chips (ps ! i) + bet (ps ! i))
              \<and> (result (rs ! i) = Win \<or> result (rs ! i) = BlackjackResult \<longrightarrow>
                   chips (players s' ! i) =
                     chips (ps ! i) + of_int (round (remaining * (shareWeight (rs ! i) / W)))
                 \<and> \<bar>of_int (round (remaining * (shareWeight (rs ! i) / W)))
                      - remaining * (shareWeight (rs ! i) / W)\<bar> \<le> 1 / 2)
              \<and> (result (rs ! i) = Lose \<longrightarrow> chips (players s' ! i) = chips (ps ! i)))
          \<and> pot s' = (if W = 0 then remaining else 0))"
proof -
  define rs where "rs = resolvedPlayers dh ps"
  define remaining where "remaining = nextPot - pushRefunds rs"
  define W where "W = winnerWeightSum rs"
  define s' where "s' = s\<lparr>pot := (if totalWeight rs > 0 then 0 else poolAfterPushes nextPot rs),
                           players := finalPlayers (poolAfterPushes nextPot rs) rs,
                           dealer := d\<lparr>hidden := False, dhand := dh\<rparr>, deck := dk',
                           phase := RoundEnd,
                           message := ''Round complete. Start the next round when ready.''\<rparr>"
  have run: "handleDealerTurn s ps d dk nextPot = Inr s'"
    using handleDealerTurn_unfold [OF loop, of s ps nextPot] multi
    by (simp add: Let_def s'_def rs_def)
  have len: "length rs = length ps" by (simp add: rs_def resolvedPlayers_fields)
  have ids': "distinct (map pid rs)" using ids by (simp add: rs_def resolvedPlayers_fields)
  have bets': "\<forall>p\<in>set rs. 0 < bet p" unfolding rs_def using bets by (rule resolvedPlayers_bets)
  have Wnn: "0 \<le> W" unfolding W_def using bets' by (rule winnerWeightSum_nonneg)
  have pl: "players s' = finalPlayers remaining rs"
    by (simp add: s'_def remaining_def poolAfterPushes_eq)
  have l1: "length (players s') = length ps" by (simp add: pl finalPlayers_def len)
  have potv: "pot s' = (if W = 0 then remaining else 0)"
    using Wnn by (auto simp: s'_def totalWeight_eq W_def remaining_def poolAfterPushes_eq)
  have each: "\<forall>i<length ps.
                result (players s' ! i) = result (rs ! i)
              \<and> (result (rs ! i) = Push \<longrightarrow>
                   chips (players s' ! i) = chips (ps ! i) + bet (ps ! i))
              \<and> (result (rs ! i) = Win \<or> result (rs ! i) = BlackjackResult \<longrightarrow>
                   chips (players s' ! i) =
                     chips (ps ! i) + of_int (round (remaining * (shareWeight (rs ! i) / W)))
                 \<and> \<bar>of_int (round (remaining * (shareWeight (rs ! i) / W)))
                      - remaining * (shareWeight (rs ! i) / W)\<bar> \<le> 1 / 2)
              \<and> (result (rs ! i) = Lose \<longrightarrow> chips (players s' ! i) = chips (ps ! i))"
  proof (intro allI impI)
    fix i assume i: "i < length ps"
    then have i': "i < length rs" by (simp add: len)
    have c: "chips (rs ! i) = chips (ps ! i)" "bet (rs ! i) = bet (ps ! i)"
      using i by (simp_all add: rs_def resolvedPlayers_fields)
    have rnd: "of_int (round x) = (of_int (Math_round x) :: rat)" for x
      by (simp add: Math_round_def round_def)
    note fp = finalPlayers_nth [OF ids' bets' i', of remaining]
    show "result (players s' ! i) = result (rs ! i)
              \<and> (result (rs ! i) = Push \<longrightarrow>
                   chips (players s' ! i) = chips (ps ! i) + bet (ps ! i))
              \<and> (result (rs ! i) = Win \<or> result (rs ! i) = BlackjackResult \<longrightarrow>
                   chips (players s' ! i) =
                     chips (ps ! i) + of_int (round (remaining * (shareWeight (rs ! i) / W)))
                 \<and> \<bar>of_int (round (remaining * (shareWeight (rs ! i) / W)))
                      - remaining * (shareWeight (rs ! i) / W)\<bar> \<le> 1 / 2)
              \<and> (result (rs ! i) = Lose \<longrightarrow> chips (players s' ! i) = chips (ps ! i))"
      using fp c Math_round_nearest [of "remaining * (shareWeight (rs ! i) / W)"]
      by (auto simp: pl Let_def isWinner_def W_def rnd)
  qed
  from run l1 each potv show ?thesis
    unfolding Let_def rs_def [symmetric] remaining_def [symmetric] W_def [symmetric] by blast
qed

lemma pushWin_round:
  "(case thenDo (handleDeal (\<lambda>i. 0) betsPlaced) handleStand of
      Inl e \<Rightarrow> False
    | Inr s \<Rightarrow> phase s = Playing \<and> currentIndex s = 1 \<and> pot s = 300
             \<and> bet (players s ! 0) = 100 \<and> bet (players s ! 1) = 200
             \<and> chips (players s ! 0) = 900 \<and> chips (players s ! 1) = 800)
   \<and> (case thenDo (thenDo (handleDeal (\<lambda>i. 0) betsPlaced) handleStand) handleStand of
        Inl e \<Rightarrow> False
      | Inr s' \<Rightarrow> phase s' = RoundEnd
             \<and> result (players s' ! 0) = Push \<and> result (players s' ! 1) = Win
             \<and> chips (players s' ! 0) = 900 + 100 \<and> chips (players s' ! 1) = 800 + 200
             \<and> pot s' = 0)"
  by code_simp

text \<open>
  Claim C2. At a table of several seats with distinct ids and positive bets, once the
  dealer has drawn, the pooled settlement refunds each push its bet, which leaves the pot
  less the refunded bets; pays each winner that remaining pot times its weight (the bet
  times 3/2 for a blackjack, the bet for a win) over the sum of the winners' weights,
  rounded to a nearest integer; pays a loser nothing; and sets the pot to the remaining pot
  when the weight sum is zero and to zero otherwise. The example round: bets of 100 and
  200 make a pot of 300; the first seat pushes and the second wins against the dealer's
  eighteen; the first is refunded 100, the second receives 200, and the pot ends at 0.
\<close>

theorem pooled_settlement:
  "(isMulti s \<and> dealerLoop (dhand d) dk = Inr (dh, dk') \<and> distinct (map pid ps)
      \<and> (\<forall>p\<in>set ps. 0 < bet p) \<longrightarrow>
    (\<exists>s'. handleDealerTurn s ps d dk nextPot = Inr s'
     \<and> (let rs = resolvedPlayers dh ps;
             remaining = nextPot - pushRefunds rs;
             W = winnerWeightSum rs
         in length (players s') = length ps
          \<and> (\<forall>i<length ps.
                result (players s' ! i) = result (rs ! i)
              \<and> (result (rs ! i) = Push \<longrightarrow>
                   chips (players s' ! i) = chips (ps ! i) + bet (ps ! i))
              \<and> (result (rs ! i) = Win \<or> result (rs ! i) = BlackjackResult \<longrightarrow>
                   chips (players s' ! i) =
                     chips (ps ! i) + of_int (round (remaining * (shareWeight (rs ! i) / W)))
                 \<and> \<bar>of_int (round (remaining * (shareWeight (rs ! i) / W)))
                      - remaining * (shareWeight (rs ! i) / W)\<bar> \<le> 1 / 2)
              \<and> (result (rs ! i) = Lose \<longrightarrow> chips (players s' ! i) = chips (ps ! i)))
          \<and> pot s' = (if W = 0 then remaining else 0))))
   \<and> (case thenDo (handleDeal (\<lambda>i. 0) betsPlaced) handleStand of
        Inl e \<Rightarrow> False
      | Inr s \<Rightarrow> phase s = Playing \<and> currentIndex s = 1 \<and> pot s = 300
             \<and> bet (players s ! 0) = 100 \<and> bet (players s ! 1) = 200
             \<and> chips (players s ! 0) = 900 \<and> chips (players s ! 1) = 800)
   \<and> (case thenDo (thenDo (handleDeal (\<lambda>i. 0) betsPlaced) handleStand) handleStand of
        Inl e \<Rightarrow> False
      | Inr s' \<Rightarrow> phase s' = RoundEnd
             \<and> result (players s' ! 0) = Push \<and> result (players s' ! 1) = Win
             \<and> chips (players s' ! 0) = 900 + 100 \<and> chips (players s' ! 1) = 800 + 200
             \<and> pot s' = 0)"
  using pooled_settlement_general [of s d dk dh dk' ps nextPot] pushWin_round by blast

theorem pooled_settlement_witness:
  "isMulti standing
   \<and> dealerLoop (dhand (dealer standing)) (deck standing)
       = Inr (dhand (dealer standing), deck standing)
   \<and> distinct (map pid bothStand)
   \<and> list_all (\<lambda>p. 0 < bet p) bothStand
   \<and> (\<exists>s'. handleDealerTurn standing bothStand (dealer standing) (deck standing) 300 = Inr s'
          \<and> result (players s' ! 0) = Push \<and> result (players s' ! 1) = Win
          \<and> chips (players s' ! 0) = 1000 \<and> chips (players s' ! 1) = 1000 \<and> pot s' = 0)"
proof -
  let ?ps = "bothStand"
  let ?dh = "dhand (dealer standing)"
  let ?rs = "resolvedPlayers ?dh ?ps"
  have h1: "isMulti standing" by code_simp
  have h2: "dealerLoop ?dh (deck standing) = Inr (?dh, deck standing)" by code_simp
  have h3: "distinct (map pid ?ps)" by code_simp
  have h4: "\<forall>p\<in>set ?ps. 0 < bet p" by code_simp
  have v: "length ?ps = 2" "result (?rs ! 0) = Push" "result (?rs ! 1) = Win"
    "chips (?ps ! 0) = 900" "bet (?ps ! 0) = 100" "chips (?ps ! 1) = 800"
    "pushRefunds ?rs = 100" "winnerWeightSum ?rs = 200" "shareWeight (?rs ! 1) = 200"
    by code_simp+
  from pooled_settlement [where s = standing and d = "dealer standing" and dk = "deck standing"
      and dh = ?dh and dk' = "deck standing" and ps = ?ps and nextPot = 300] h1 h2 h3 h4
  obtain s' where run: "handleDealerTurn standing ?ps (dealer standing) (deck standing) 300 = Inr s'"
    and rest: "let rs = ?rs; remaining = 300 - pushRefunds rs; W = winnerWeightSum rs
         in length (players s') = length ?ps
          \<and> (\<forall>i<length ?ps.
                result (players s' ! i) = result (rs ! i)
              \<and> (result (rs ! i) = Push \<longrightarrow>
                   chips (players s' ! i) = chips (?ps ! i) + bet (?ps ! i))
              \<and> (result (rs ! i) = Win \<or> result (rs ! i) = BlackjackResult \<longrightarrow>
                   chips (players s' ! i) =
                     chips (?ps ! i) + of_int (round (remaining * (shareWeight (rs ! i) / W)))
                 \<and> \<bar>of_int (round (remaining * (shareWeight (rs ! i) / W)))
                      - remaining * (shareWeight (rs ! i) / W)\<bar> \<le> 1 / 2)
              \<and> (result (rs ! i) = Lose \<longrightarrow> chips (players s' ! i) = chips (?ps ! i)))
          \<and> pot s' = (if W = 0 then remaining else 0)"
    by blast
  from rest have potv: "pot s' = 0" by (simp add: Let_def v)
  from rest have each: "\<forall>i<2.
                result (players s' ! i) = result (?rs ! i)
              \<and> (result (?rs ! i) = Push \<longrightarrow>
                   chips (players s' ! i) = chips (?ps ! i) + bet (?ps ! i))
              \<and> (result (?rs ! i) = Win \<or> result (?rs ! i) = BlackjackResult \<longrightarrow>
                   chips (players s' ! i) =
                     chips (?ps ! i) + of_int (round (200 * (shareWeight (?rs ! i) / 200))))"
    by (simp add: Let_def v(1,7,8))
  from each have e0: "result (players s' ! 0) = result (?rs ! 0)
              \<and> (result (?rs ! 0) = Push \<longrightarrow>
                   chips (players s' ! 0) = chips (?ps ! 0) + bet (?ps ! 0))" by simp
  with v have c0: "result (players s' ! 0) = Push" "chips (players s' ! 0) = 1000" by simp_all
  have "(1::nat) < 2" by simp
  with each have e1: "result (players s' ! 1) = result (?rs ! 1)
              \<and> (result (?rs ! 1) = Win \<or> result (?rs ! 1) = BlackjackResult \<longrightarrow>
                   chips (players s' ! 1) =
                     chips (?ps ! 1) + of_int (round (200 * (shareWeight (?rs ! 1) / 200))))"
    by blast
  with v have c1: "result (players s' ! 1) = Win" "chips (players s' ! 1) = 1000" by simp_all
  from h4 have h4': "list_all (\<lambda>p. 0 < bet p) ?ps" by (simp only: list_all_iff)
  from run c0 c1 potv have "\<exists>s'. handleDealerTurn standing ?ps (dealer standing) (deck standing) 300 = Inr s'
          \<and> result (players s' ! 0) = Push \<and> result (players s' ! 1) = Win
          \<and> chips (players s' ! 0) = 1000 \<and> chips (players s' ! 1) = 1000 \<and> pot s' = 0"
    by blast
  with h1 h2 h3 h4' show ?thesis by blast
qed

lemma single_settlement_general:
  assumes single: "\<not> isMulti s"
    and loop: "dealerLoop (dhand d) dk = Inr (dh, dk')"
  shows "\<exists>s'. handleDealerTurn s ps d dk nextPot = Inr s'
     \<and> length (players s') = length ps
     \<and> (\<forall>i<length ps.
          result (players s' ! i) = result (resolvedPlayers dh ps ! i)
        \<and> chips (players s' ! i) =
            chips (ps ! i) + bet (ps ! i) * payoutMultiplier (result (resolvedPlayers dh ps ! i))
        \<and> delta (players s' ! i) = chips (players s' ! i) - roundStartChips (ps ! i))
     \<and> pot s' = pot s"
proof -
  define rs where "rs = resolvedPlayers dh ps"
  define s' where "s' = s\<lparr>players := payoutPlayers rs,
                           dealer := d\<lparr>hidden := False, dhand := dh\<rparr>, deck := dk',
                           phase := RoundEnd,
                           message := ''Round complete. Start the next round when ready.''\<rparr>"
  have run: "handleDealerTurn s ps d dk nextPot = Inr s'"
    using handleDealerTurn_unfold [OF loop, of s ps nextPot] single
    by (simp add: Let_def s'_def rs_def)
  have len: "length rs = length ps" by (simp add: rs_def resolvedPlayers_fields)
  have l1: "length (players s') = length ps" by (simp add: s'_def payoutPlayers_def len)
  have each: "\<forall>i<length ps.
          result (players s' ! i) = result (rs ! i)
        \<and> chips (players s' ! i) = chips (ps ! i) + bet (ps ! i) * payoutMultiplier (result (rs ! i))
        \<and> delta (players s' ! i) = chips (players s' ! i) - roundStartChips (ps ! i)"
    by (simp add: s'_def payoutPlayers_nth len Let_def) (simp add: rs_def resolvedPlayers_fields)
  have "pot s' = pot s" by (simp add: s'_def)
  with run l1 each show ?thesis unfolding rs_def by blast
qed

lemma solo_blackjack_round:
  "chips (players soloBet ! 0) = 1000
   \<and> bet (players soloBet ! 0) = 100
   \<and> chips (reservedPlayers (players soloBet) ! 0) = 900
   \<and> (case handleDeal (\<lambda>i. 0) soloBet of
        Inl e \<Rightarrow> False
      | Inr s' \<Rightarrow> phase s' = RoundEnd
             \<and> result (players s' ! 0) = BlackjackResult
             \<and> bet (players s' ! 0) = 100
             \<and> chips (players s' ! 0) = 900 + 250
             \<and> chips (players s' ! 0) - chips (players soloBet ! 0) = 150
             \<and> delta (players s' ! 0) = 150)"
  by code_simp

text \<open>
  Claim C6. At a table of one seat, once the dealer has drawn, the settlement credits each
  player's balance, from which the bet was debited at the deal, with the bet times 1 for a
  push, 2 for a win, 5/2 for a blackjack and 0 for a loss, records the difference to the
  chips held before the debit, and leaves the pot alone. The example round: a seat with
  1000 chips bets 100 and is dealt a natural against the dealer's twenty; 250 is credited to
  the 900 left after the debit, and the round changes the balance by 150.
\<close>

theorem single_settlement:
  "(\<not> isMulti s \<and> dealerLoop (dhand d) dk = Inr (dh, dk') \<longrightarrow>
     (\<exists>s'. handleDealerTurn s ps d dk nextPot = Inr s'
       \<and> length (players s') = length ps
       \<and> (\<forall>i<length ps.
            result (players s' ! i) = result (resolvedPlayers dh ps ! i)
          \<and> chips (players s' ! i) =
              chips (ps ! i)
              + bet (ps ! i) * payoutMultiplier (result (resolvedPlayers dh ps ! i))
          \<and> delta (players s' ! i) = chips (players s' ! i) - roundStartChips (ps ! i))
       \<and> pot s' = pot s))
   \<and> payoutMultiplier Push = 1 \<and> payoutMultiplier Win = 2
   \<and> payoutMultiplier BlackjackResult = 5 / 2 \<and> payoutMultiplier Lose = 0
   \<and> chips (players soloBet ! 0) = 1000
   \<and> bet (players soloBet ! 0) = 100
   \<and> chips (reservedPlayers (players soloBet) ! 0) = 900
   \<and> (case handleDeal (\<lambda>i. 0) soloBet of
        Inl e \<Rightarrow> False
      | Inr s' \<Rightarrow> phase s' = RoundEnd
             \<and> result (players s' ! 0) = BlackjackResult
             \<and> bet (players s' ! 0) = 100
             \<and> chips (players s' ! 0) = 900 + 250
             \<and> chips (players s' ! 0) - chips (players soloBet ! 0) = 150
             \<and> delta (players s' ! 0) = 150)"
proof -
  have m: "payoutMultiplier Push = 1 \<and> payoutMultiplier Win = 2
     \<and> payoutMultiplier BlackjackResult = 5 / 2 \<and> payoutMultiplier Lose = 0"
    by simp
  from single_settlement_general [of s d dk dh dk' ps nextPot] m solo_blackjack_round
  show ?thesis by blast
qed

theorem single_settlement_witness:
  "\<not> isMulti soloBet
   \<and> dealerLoop (dhand soloDealer) [] = Inr (dhand soloDealer, [])
   \<and> (\<exists>s'. handleDealerTurn soloBet soloSeat soloDealer [] 0 = Inr s'
          \<and> result (players s' ! 0) = BlackjackResult
          \<and> chips (players s' ! 0) = 1150
          \<and> delta (players s' ! 0) = 150)"
proof -
  let ?rs = "resolvedPlayers (dhand soloDealer) soloSeat"
  have h1: "\<not> isMulti soloBet" by code_simp
  have h2: "dealerLoop (dhand soloDealer) [] = Inr (dhand soloDealer, [])" by code_simp
  have v: "length soloSeat = 1" "result (?rs ! 0) = BlackjackResult"
    "chips (soloSeat ! 0) = 900" "bet (soloSeat ! 0) = 100" "roundStartChips (soloSeat ! 0) = 1000"
    by code_simp+
  from single_settlement [where s = soloBet and d = soloDealer and dk = "[]"
      and dh = "dhand soloDealer" and dk' = "[]" and ps = soloSeat and nextPot = 0] h1 h2
  obtain s' where run: "handleDealerTurn soloBet soloSeat soloDealer [] 0 = Inr s'"
    and each: "\<forall>i<length soloSeat.
            result (players s' ! i) = result (?rs ! i)
          \<and> chips (players s' ! i) =
              chips (soloSeat ! i) + bet (soloSeat ! i) * payoutMultiplier (result (?rs ! i))
          \<and> delta (players s' ! i) = chips (players s' ! i) - roundStartChips (soloSeat ! i)"
    by blast
  from each v(1) have e0: "result (players s' ! 0) = result (?rs ! 0)
          \<and> chips (players s' ! 0) =
              chips (soloSeat ! 0) + bet (soloSeat ! 0) * payoutMultiplier (result (?rs ! 0))
          \<and> delta (players s' ! 0) = chips (players s' ! 0) - roundStartChips (soloSeat ! 0)"
    by simp
  with v have c: "result (players s' ! 0) = BlackjackResult" "chips (players s' ! 0) = 1150"
    "delta (players s' ! 0) = 150"
    by simp_all
  with run have "\<exists>s'. handleDealerTurn soloBet soloSeat soloDealer [] 0 = Inr s'
          \<and> result (players s' ! 0) = BlackjackResult
          \<and> chips (players s' ! 0) = 1150
          \<and> delta (players s' ! 0) = 150" by blast
  with h1 h2 show ?thesis by blast
qed






subsection \<open>Hit and stand outside a turn\<close>

lemma handleHit_guard:
  "\<not> currentIndex s < length (players s) \<or> status (players s ! currentIndex s) \<noteq> Active
   \<Longrightarrow> handleHit s = Inr s"
  by (simp add: handleHit_def)

text \<open>
  Claim C4 fails for stand. \<open>handleHit\<close> returns at once when the acting seat is missing or
  not active; \<open>handleStand\<close> has no such guard. The render offers both buttons in the
  playing phase only, so the guard is needed where that phase holds an acting seat that is
  not active: after a dealer turn that threw. In the session \<open>toStalled\<close> the last card of
  the deck busts the second seat; the dealer, holding 13, draws from the empty deck and the
  handler throws with the new deck and the new players queued. The table stays in the
  playing phase, the acting index at the bust seat, the stand button on display. There a
  hit changes nothing, and a stand throws in the dealer turn again after it has turned the
  status of the bust seat into stand.
\<close>

theorem handleStand_after_dealer_throw:
  "uiRun (firstRender runRnd) toStalled = Some stalled
   \<and> screen stalled = Table \<and> phase stalled = Playing \<and> enabled stalled DoStand
   \<and> currentIndex stalled = 1
   \<and> map status (players stalled) = [Stand, Bust]
   \<and> map calculateHand (map hand (players stalled)) = [20, 22]
   \<and> calculateHand (dhand (dealer stalled)) = 13
   \<and> deck stalled = []
   \<and> commitStep stalled DoHit = stalled
   \<and> handleStand stalled = Inl TypeError
   \<and> map status (players (commitStep stalled DoStand)) = [Stand, Stand]"
  by code_simp

subsection \<open>Deck integrity\<close>

lemma mset_shuffleFrom: "i < length dk \<Longrightarrow> mset (shuffleFrom rnd i dk) = mset dk"
proof (induction i arbitrary: dk)
  case 0
  then show ?case by simp
next
  case (Suc i)
  let ?j = "rnd (Suc i) mod (Suc i + 1)"
  have j: "?j < length dk" using Suc.prems by (simp add: less_le_trans [OF mod_less_divisor])
  let ?dk = "dk[Suc i := dk ! ?j, ?j := dk ! Suc i]"
  have "mset ?dk = mset dk" using j Suc.prems by (rule mset_swap)
  moreover have "i < length ?dk" using Suc.prems by simp
  ultimately show ?case using Suc.IH [of ?dk] by (simp add: Let_def)
qed

lemma mset_shuffle: "mset (shuffle rnd cards) = mset cards"
proof (cases cards)
  case Nil
  then show ?thesis by (simp add: shuffle_def)
next
  case (Cons c cs)
  then show ?thesis by (simp add: shuffle_def mset_shuffleFrom)
qed

text \<open>
  A fresh deck holds 52 cards, one for each pair of a suit and a rank, and shuffling
  permutes whatever cards it is given: no card is lost or gained.
\<close>

theorem deck_integrity:
  "length createDeck = 52
   \<and> distinct (map (\<lambda>c. (suit c, rank c)) createDeck)
   \<and> set (map (\<lambda>c. (suit c, rank c)) createDeck) = set SUITS \<times> set RANKS
   \<and> mset (shuffle rnd cards) = mset cards
   \<and> length (shuffle rnd createDeck) = 52"
proof -
  have pairs: "map (\<lambda>c. (suit c, rank c)) createDeck = List.product SUITS RANKS"
    by (simp add: createDeck_def mkCard_def SUITS_def RANKS_def)
  have a: "length createDeck = 52" by (rule length_createDeck)
  have "distinct SUITS" "distinct RANKS" by (simp_all add: SUITS_def RANKS_def)
  then have b: "distinct (map (\<lambda>c. (suit c, rank c)) createDeck)"
    unfolding pairs by (rule distinct_product)
  have c: "set (map (\<lambda>c. (suit c, rank c)) createDeck) = set SUITS \<times> set RANKS"
    unfolding pairs by simp
  from a b c mset_shuffle [of rnd cards] show ?thesis by (simp add: length_shuffle)
qed

subsection \<open>Dealer policy\<close>

lemma dealerLoop_stands:
  "dealerLoop h dk = Inr (h', dk') \<Longrightarrow>
   17 \<le> calculateHand h' \<and> (\<exists>drawn. dk = dk' @ drawn \<and> h' = h @ rev drawn
      \<and> (\<forall>k<length drawn. calculateHand (h @ take k (rev drawn)) < 17))"
proof (induction h dk rule: dealerLoop.induct)
  case (1 h dk)
  show ?case
  proof (cases "calculateHand h < 17")
    case False
    with "1.prems" have "h' = h" "dk' = dk" by (simp_all add: dealerLoop.simps [of h dk])
    with False show ?thesis by simp
  next
    case True
    show ?thesis
    proof (cases dk rule: rev_cases)
      case Nil
      with True "1.prems" show ?thesis
        by (simp add: dealerLoop.simps [of h "[]"] drawCard_Nil)
    next
      case (snoc xs x)
      then have dc: "drawCard dk = (Some x, xs)" by (simp add: drawCard_snoc)
      with True "1.prems" have rec: "dealerLoop (h @ [x]) xs = Inr (h', dk')"
        by (simp add: dealerLoop.simps [of h dk])
      from "1.IH" [OF True dc [symmetric] refl rec]
      obtain drawn where d: "17 \<le> calculateHand h'" "xs = dk' @ drawn"
        "h' = (h @ [x]) @ rev drawn"
        "\<forall>k<length drawn. calculateHand ((h @ [x]) @ take k (rev drawn)) < 17"
        by blast
      let ?drawn = "drawn @ [x]"
      from snoc d(2) have e1: "dk = dk' @ ?drawn" by simp
      from d(3) have e2: "h' = h @ rev ?drawn" by simp
      have e3: "\<forall>k<length ?drawn. calculateHand (h @ take k (rev ?drawn)) < 17"
      proof (intro allI impI)
        fix k assume k: "k < length ?drawn"
        show "calculateHand (h @ take k (rev ?drawn)) < 17"
        proof (cases k)
          case 0
          with True show ?thesis by simp
        next
          case (Suc m)
          with k have "m < length drawn" by simp
          with d(4) have "calculateHand ((h @ [x]) @ take m (rev drawn)) < 17" by blast
          with Suc show ?thesis by simp
        qed
      qed
      from d(1) e1 e2 e3 show ?thesis by blast
    qed
  qed
qed

lemma dealerLoop_exhausted:
  "dealerLoop h dk = Inl e \<Longrightarrow> calculateHand (h @ rev dk) < 17"
proof (induction h dk rule: dealerLoop.induct)
  case (1 h dk)
  from "1.prems" have lt: "calculateHand h < 17"
    by (simp add: dealerLoop.simps [of h dk] split: if_splits)
  show ?case
  proof (cases dk rule: rev_cases)
    case Nil
    with lt show ?thesis by simp
  next
    case (snoc xs x)
    then have dc: "drawCard dk = (Some x, xs)" by (simp add: drawCard_snoc)
    with lt "1.prems" have rec: "dealerLoop (h @ [x]) xs = Inl e"
      by (simp add: dealerLoop.simps [of h dk])
    from "1.IH" [OF lt dc [symmetric] refl rec]
    have "calculateHand ((h @ [x]) @ rev xs) < 17" .
    with snoc show ?thesis by simp
  qed
qed

text \<open>
  When the dealer loop returns, the dealer's total is at least 17, the cards drawn are the
  last cards of the deck in draw order, and before each draw the total was below 17.
\<close>

theorem dealer_stands_on_17:
  assumes "dealerLoop h dk = Inr (h', dk')"
  shows "17 \<le> calculateHand h'
    \<and> (\<exists>drawn. dk = dk' @ drawn \<and> h' = h @ rev drawn
          \<and> (\<forall>k<length drawn. calculateHand (h @ take k (rev drawn)) < 17))"
  using assms by (rule dealerLoop_stands)

theorem dealer_stands_on_17_witness:
  "dealerLoop [mkCard Spades ''K'', mkCard Spades ''6'']
              [mkCard Diamonds ''9'', mkCard Hearts ''5'']
     = Inr ([mkCard Spades ''K'', mkCard Spades ''6'', mkCard Hearts ''5''], [mkCard Diamonds ''9''])
   \<and> 17 \<le> calculateHand [mkCard Spades ''K'', mkCard Spades ''6'', mkCard Hearts ''5'']"
proof -
  have run: "dealerLoop [mkCard Spades ''K'', mkCard Spades ''6'']
              [mkCard Diamonds ''9'', mkCard Hearts ''5'']
     = Inr ([mkCard Spades ''K'', mkCard Spades ''6'', mkCard Hearts ''5''], [mkCard Diamonds ''9''])"
    by code_simp
  from dealer_stands_on_17 [OF run] run show ?thesis by blast
qed

text \<open>
  The deck the deal uses holds at least 15 cards, so a deal to at most six seats never
  draws from an empty deck.
\<close>

theorem deal_never_runs_out:
  assumes "length ps \<le> 6"
  shows "15 \<le> length (ensureDeck rnd dk)
    \<and> (\<exists>nextDeck dealt nextDealer.
          dealInitial rnd dk ps = Inr (nextDeck, dealt, nextDealer)
        \<and> length nextDeck = length (ensureDeck rnd dk) - (2 * length ps + 2)
        \<and> length dealt = length ps)"
proof -
  have e: "15 \<le> length (ensureDeck rnd dk)" by (rule ensureDeck_length)
  with assms have "2 * length ps + 2 \<le> length (ensureDeck rnd dk)" by simp
  from dealInitial_rev [OF this] e show ?thesis by (simp add: Let_def length_mapIdx)
qed

theorem deal_never_runs_out_witness:
  "length (reservedPlayers (players betsPlaced)) \<le> 6
   \<and> (\<exists>nextDeck dealt nextDealer.
          dealInitial (\<lambda>i. 0) pushWinDeck (reservedPlayers (players betsPlaced))
            = Inr (nextDeck, dealt, nextDealer)
        \<and> length dealt = 2)"
proof -
  have h: "length (reservedPlayers (players betsPlaced)) \<le> 6" by code_simp
  have n: "length (reservedPlayers (players betsPlaced)) = 2" by code_simp
  from deal_never_runs_out [OF h, of "\<lambda>i. 0" pushWinDeck] n h show ?thesis by auto
qed

subsection \<open>The turn invariant\<close>

lemma noneActive_nth: "noneActive ps \<longleftrightarrow> (\<forall>k<length ps. status (ps ! k) \<noteq> Active)"
  by (simp add: noneActive_def list_all_length)

lemma noneActive_map: "(\<And>p. status (f p) = status p) \<Longrightarrow> noneActive (map f ps) = noneActive ps"
  by (simp add: noneActive_def list_all_iff)

lemma noneActive_finalPlayers: "noneActive (finalPlayers pool rs) = noneActive rs"
  unfolding finalPlayers_def by (rule noneActive_map) (simp add: Let_def)

lemma noneActive_payoutPlayers: "noneActive (payoutPlayers rs) = noneActive rs"
  unfolding payoutPlayers_def by (rule noneActive_map) (simp add: Let_def)

lemma noneActive_resolvedPlayers: "noneActive (resolvedPlayers dh ps) = noneActive ps"
  unfolding resolvedPlayers_def by (rule noneActive_map) simp

lemma handleDealerTurn_turnInv:
  assumes run: "handleDealerTurn s ps d dk np = Inr s'" and none: "noneActive ps"
  shows "turnInv s'"
proof (cases "dealerLoop (dhand d) dk")
  case (Inl e)
  with run show ?thesis by (simp add: handleDealerTurn_def)
next
  case (Inr r)
  then obtain dh dk' where loop: "dealerLoop (dhand d) dk = Inr (dh, dk')" by (cases r) simp
  have rs: "noneActive (resolvedPlayers dh ps)" using none by (simp add: noneActive_resolvedPlayers)
  show ?thesis
  proof (cases "isMulti s")
    case True
    with handleDealerTurn_unfold [OF loop, of s ps np] run
    have "phase s' = RoundEnd"
      "players s' = finalPlayers (poolAfterPushes np (resolvedPlayers dh ps)) (resolvedPlayers dh ps)"
      by (auto simp: Let_def)
    with rs show ?thesis by (simp add: turnInv_def noneActive_finalPlayers)
  next
    case False
    with handleDealerTurn_unfold [OF loop, of s ps np] run
    have "phase s' = RoundEnd" "players s' = payoutPlayers (resolvedPlayers dh ps)"
      by (auto simp: Let_def)
    with rs show ?thesis by (simp add: turnInv_def noneActive_payoutPlayers)
  qed
qed

lemma advanceTurn_turnInv:
  assumes adv: "advanceTurn s ps d dk np = Inr s'"
    and pl: "players s = ps"
    and before: "noneActive (take (Suc (currentIndex s)) ps)"
    and ph: "phase s \<noteq> Playing \<longrightarrow> noneActive ps"
  shows "turnInv s'"
proof (cases "nextActiveIndex ps (int (currentIndex s)) = - 1")
  case True
  then have after: "\<forall>j. currentIndex s < j \<and> j < length ps \<longrightarrow> status (ps ! j) \<noteq> Active"
    by (simp add: nextActiveIndex_none)
  have "noneActive ps"
    unfolding noneActive_nth
  proof (intro allI impI)
    fix k assume k: "k < length ps"
    show "status (ps ! k) \<noteq> Active"
    proof (cases "k \<le> currentIndex s")
      case True
      with before k show ?thesis by (simp add: noneActive_nth)
    next
      case False
      with after k show ?thesis by simp
    qed
  qed
  moreover from True adv have "handleDealerTurn s ps d dk np = Inr s'"
    by (simp add: advanceTurn_def)
  ultimately show ?thesis by (blast intro: handleDealerTurn_turnInv)
next
  case False
  from nextActiveIndex_found [OF False] obtain j where
    j: "nextActiveIndex ps (int (currentIndex s)) = int j" "currentIndex s < j" "j < length ps"
       "status (ps ! j) = Active"
       "\<forall>k. currentIndex s < k \<and> k < j \<longrightarrow> status (ps ! k) \<noteq> Active" by blast
  from j(3,4) have "\<not> noneActive ps" by (auto simp: noneActive_nth)
  with ph have playing: "phase s = Playing" by blast
  from False adv j(1) have s': "s' = s\<lparr>currentIndex := j\<rparr>" by (simp add: advanceTurn_def)
  have "noneActive (take j ps)"
    unfolding noneActive_nth
  proof (intro allI impI)
    fix k assume k: "k < length (take j ps)"
    then have kj: "k < j" "k < length ps" by simp_all
    show "status (take j ps ! k) \<noteq> Active"
    proof (cases "k \<le> currentIndex s")
      case True
      with before kj have "status (ps ! k) \<noteq> Active" by (simp add: noneActive_nth)
      with kj show ?thesis by simp
    next
      case False
      with j(5) kj show ?thesis by simp
    qed
  qed
  with s' playing pl show ?thesis by (simp add: turnInv_def)
qed

lemma noneActive_take_update:
  assumes "noneActive (take i ps)" "status q \<noteq> Active"
  shows "noneActive (take (Suc i) (ps[i := q]))"
  unfolding noneActive_nth
proof (intro allI impI)
  fix k assume k: "k < length (take (Suc i) (ps[i := q]))"
  show "status (take (Suc i) (ps[i := q]) ! k) \<noteq> Active"
  proof (cases "k = i")
    case True
    with k assms(2) show ?thesis by simp
  next
    case False
    with k have "k < i" "k < length ps" by simp_all
    with assms(1) have "status (ps ! k) \<noteq> Active" by (simp add: noneActive_nth)
    with k False show ?thesis by simp
  qed
qed

lemma noneActive_update: "noneActive ps \<Longrightarrow> status q \<noteq> Active \<Longrightarrow> noneActive (ps[i := q])"
proof -
  assume a: "noneActive ps" "status q \<noteq> Active"
  have "set (ps[i := q]) \<subseteq> insert q (set ps)" by (rule set_update_subset_insert)
  with a show ?thesis unfolding noneActive_def list_all_iff by auto
qed

lemma handleHit_turnInv:
  assumes inv: "turnInv s" and run: "handleHit s = Inr s'"
  shows "turnInv s'"
proof (cases "currentIndex s < length (players s) \<and> status (players s ! currentIndex s) = Active")
  case False
  then have "handleHit s = Inr s" by (simp add: handleHit_def)
  with run inv show ?thesis by simp
next
  case True
  then have ci: "currentIndex s < length (players s)"
    and act: "status (players s ! currentIndex s) = Active" by simp_all
  from ci act have "\<not> noneActive (players s)" by (auto simp: noneActive_nth)
  with inv have playing: "phase s = Playing" and before: "noneActive (take (currentIndex s) (players s))"
    by (auto simp: turnInv_def split: if_splits)
  have dk: "deck s \<noteq> []"
  proof
    assume "deck s = []"
    with True have "handleHit s = Inl TypeError" by (simp add: handleHit_def drawCard_Nil)
    with run show False by simp
  qed
  define p where "p = players s ! currentIndex s"
  define h where "h = hand p @ [last (deck s)]"
  define st where "st = (if calculateHand h > 21 then Bust else if calculateHand h = 21 then Stand else Active)"
  define ps' where "ps' = (players s)[currentIndex s := p\<lparr>hand := h, status := st\<rparr>]"
  define s1 where "s1 = s\<lparr>deck := butlast (deck s), players := ps'\<rparr>"
  have hit: "handleHit s =
      (if st \<noteq> Active then advanceTurn s1 ps' (dealer s) (butlast (deck s)) (pot s) else Inr s1)"
    using handleHit_unfold [OF ci act dk]
    by (simp add: Let_def p_def h_def st_def ps'_def s1_def)
  show ?thesis
  proof (cases "st = Active")
    case True
    with hit run have "s' = s1" by simp
    moreover have "take (currentIndex s) ps' = take (currentIndex s) (players s)"
      by (simp add: ps'_def)
    ultimately show ?thesis using playing before by (simp add: turnInv_def s1_def)
  next
    case False
    with hit run have adv: "advanceTurn s1 ps' (dealer s) (butlast (deck s)) (pot s) = Inr s'"
      by simp
    have "noneActive (take (Suc (currentIndex s)) ps')"
      unfolding ps'_def using before by (rule noneActive_take_update) (simp add: False)
    then have "noneActive (take (Suc (currentIndex s1)) ps')" by (simp add: s1_def)
    moreover have "players s1 = ps'" by (simp add: s1_def)
    moreover have "phase s1 \<noteq> Playing \<longrightarrow> noneActive ps'" using playing by (simp add: s1_def)
    ultimately show ?thesis using adv by (intro advanceTurn_turnInv [OF adv])
  qed
qed

lemma handleStand_turnInv:
  assumes inv: "turnInv s" and run: "handleStand s = Inr s'"
  shows "turnInv s'"
proof -
  define ps' where "ps' = mapIdx (\<lambda>p idx. if idx = currentIndex s then p\<lparr>status := Stand\<rparr> else p) (players s)"
  define s1 where "s1 = s\<lparr>players := ps'\<rparr>"
  from run have adv: "advanceTurn s1 ps' (dealer s) (deck s) (pot s) = Inr s'"
    by (simp add: handleStand_def Let_def ps'_def s1_def)
  have ps'_eq: "ps' = (if currentIndex s < length (players s)
                       then (players s)[currentIndex s := (players s ! currentIndex s)\<lparr>status := Stand\<rparr>]
                       else players s)"
    by (simp add: ps'_def mapIdx_update)
  have before: "noneActive (take (Suc (currentIndex s1)) ps')"
  proof (cases "phase s = Playing")
    case True
    with inv have b: "noneActive (take (currentIndex s) (players s))" by (simp add: turnInv_def)
    show ?thesis
    proof (cases "currentIndex s < length (players s)")
      case True
      with b show ?thesis by (simp add: ps'_eq s1_def noneActive_take_update)
    next
      case False
      with b show ?thesis by (simp add: ps'_eq s1_def)
    qed
  next
    case False
    with inv have "noneActive (players s)" by (simp add: turnInv_def)
    then have "noneActive ps'" by (simp add: ps'_eq noneActive_update)
    then show ?thesis by (simp add: noneActive_def list_all_iff) (meson in_set_takeD)
  qed
  have ph: "phase s1 \<noteq> Playing \<longrightarrow> noneActive ps'"
  proof
    assume "phase s1 \<noteq> Playing"
    then have "phase s \<noteq> Playing" by (simp add: s1_def)
    with inv have "noneActive (players s)" by (simp add: turnInv_def)
    then show "noneActive ps'" by (simp add: ps'_eq noneActive_update)
  qed
  have "players s1 = ps'" by (simp add: s1_def)
  from advanceTurn_turnInv [OF adv this before ph] show ?thesis .
qed

lemma handleDeal_turnInv:
  assumes inv: "turnInv s" and run: "handleDeal rnd s = Inr s'"
  shows "turnInv s'"
proof (cases "invalidBets (players s)")
  case True
  with run have "s' = s\<lparr>message := ''Each player must bet more than $0 and within their chip balance.''\<rparr>"
    by (simp add: handleDeal_def)
  with inv show ?thesis by (simp add: turnInv_def)
next
  case False
  have "\<exists>r. dealInitial rnd (deck s) (reservedPlayers (players s)) = Inr r"
  proof (cases "dealInitial rnd (deck s) (reservedPlayers (players s))")
    case (Inl e)
    with False have "handleDeal rnd s = Inl e" by (simp add: handleDeal_def)
    with run show ?thesis by simp
  next
    case (Inr r)
    then show ?thesis by blast
  qed
  then obtain nextDeck dealt nextDealer where
    deal: "dealInitial rnd (deck s) (reservedPlayers (players s)) = Inr (nextDeck, dealt, nextDealer)"
    by (metis prod_cases3)
  note hd = handleDeal_dealt [OF False deal]
  show ?thesis
  proof (cases "nextActiveIndex dealt (- 1) = - 1")
    case True
    then have "noneActive dealt" by (simp add: nextActiveIndex_first_none noneActive_nth)
    moreover from hd True run have "\<exists>s2 np. handleDealerTurn s2 dealt nextDealer nextDeck np = Inr s'"
      by (simp add: Let_def) blast
    ultimately show ?thesis by (blast intro: handleDealerTurn_turnInv)
  next
    case False
    from nextActiveIndex_first_found [OF False] obtain j where
      j: "nextActiveIndex dealt (- 1) = int j" "j < length dealt"
         "\<forall>k<j. status (dealt ! k) \<noteq> Active" by blast
    from hd False run j(1) have "s' = (if isMulti s
          then s\<lparr>deck := nextDeck, players := dealt, dealer := nextDealer, phase := Playing,
                 message := ''Choose your action.'',
                 pot := pot s + sum_list (map bet (players s))\<rparr>
          else s\<lparr>deck := nextDeck, players := dealt, dealer := nextDealer, phase := Playing,
                 message := ''Choose your action.''\<rparr>)\<lparr>currentIndex := j\<rparr>"
      by (simp add: Let_def)
    then have s': "phase s' = Playing" "players s' = dealt" "currentIndex s' = j"
      by simp_all
    from j(2,3) have "noneActive (take j dealt)" by (simp add: noneActive_nth)
    with s' show ?thesis by (simp add: turnInv_def)
  qed
qed

lemma map_status_bet_update:
  "i < length ps \<Longrightarrow> map status (ps[i := (ps ! i)\<lparr>bet := b\<rparr>]) = map status ps"
  by (simp add: map_update list_update_same_conv)

lemma applyBet_status:
  "map status (players (applyBet s a)) = map status (players s) \<and> phase (applyBet s a) = phase s
   \<and> currentIndex (applyBet s a) = currentIndex s"
proof (cases a)
  case (BetAdd i amount)
  then show ?thesis
    by (simp add: handleBetAdd_players map_status_bet_update) (simp add: handleBetAdd_def)
next
  case (BetClear i)
  then show ?thesis
    by (simp add: handleBetClear_players map_status_bet_update) (simp add: handleBetClear_def)
next
  case (BetAllIn i)
  then show ?thesis
    by (simp add: handleBetAllIn_players map_status_bet_update) (simp add: handleBetAllIn_def)
qed

lemma noneActive_status: "map status ps = map status qs \<Longrightarrow> noneActive ps = noneActive qs"
proof -
  assume "map status ps = map status qs"
  moreover have "noneActive xs = list_all (\<lambda>st. st \<noteq> Active) (map status xs)" for xs
    by (simp add: noneActive_def list_all_iff)
  ultimately show ?thesis by simp
qed

lemma applyBet_turnInv: "turnInv s \<Longrightarrow> turnInv (applyBet s a)"
proof -
  assume inv: "turnInv s"
  from applyBet_status [of s a] have m: "map status (players (applyBet s a)) = map status (players s)"
    and ph: "phase (applyBet s a) = phase s" and ci: "currentIndex (applyBet s a) = currentIndex s"
    by simp_all
  from m have "map status (take n (players (applyBet s a))) = map status (take n (players s))" for n
    by (simp add: take_map [symmetric])
  then have "noneActive (take n (players (applyBet s a))) = noneActive (take n (players s))" for n
    by (rule noneActive_status)
  moreover from m have "noneActive (players (applyBet s a)) = noneActive (players s)"
    by (rule noneActive_status)
  ultimately show ?thesis using inv ph ci by (simp add: turnInv_def)
qed

lemma noneActive_take: "noneActive ps \<Longrightarrow> noneActive (take n ps)"
  by (auto simp: noneActive_def list_all_iff dest: in_set_takeD)

lemma hitQueued_turnInv:
  assumes inv: "turnInv s" and ci: "currentIndex s < length (players s)"
    and act: "status (players s ! currentIndex s) = Active"
  shows "turnInv (hitQueued s)"
proof (cases "deck s = []")
  case True
  then have "hitQueued s = s" by (simp add: hitQueued_def drawCard_Nil)
  with inv show ?thesis by simp
next
  case False
  from ci act have "\<not> noneActive (players s)" by (auto simp: noneActive_nth)
  with inv have playing: "phase s = Playing"
    and before: "noneActive (take (currentIndex s) (players s))"
    by (auto simp: turnInv_def split: if_splits)
  from False ci have "phase (hitQueued s) = phase s"
    "currentIndex (hitQueued s) = currentIndex s"
    "take (currentIndex s) (players (hitQueued s)) = take (currentIndex s) (players s)"
    by (simp_all add: hitQueued_def drawCard_nonempty mapIdx_update Let_def)
  with playing before show ?thesis by (simp add: turnInv_def)
qed

lemma standQueued_turnInv:
  assumes inv: "turnInv s"
  shows "turnInv (standQueued s)"
proof -
  have eq: "standQueued s =
      s\<lparr>players := (players s)[currentIndex s := (players s ! currentIndex s)\<lparr>status := Stand\<rparr>]\<rparr>"
    by (simp add: standQueued_def mapIdx_update list_update_beyond not_less)
  show ?thesis
  proof (cases "phase s = Playing")
    case True
    with inv show ?thesis by (simp add: eq turnInv_def)
  next
    case False
    with inv have "noneActive (players s)" by (simp add: turnInv_def)
    then have "noneActive ((players s)[currentIndex s := (players s ! currentIndex s)\<lparr>status := Stand\<rparr>])"
      by (rule noneActive_update) simp
    with False show ?thesis by (simp add: eq turnInv_def)
  qed
qed

lemma dealQueued_turnInv:
  assumes inv: "turnInv s" and run: "handleDeal rnd s = Inl e"
  shows "turnInv (dealQueued rnd s)"
proof (cases "dealInitial rnd (deck s) (reservedPlayers (players s))")
  case (Inl e')
  then have "dealQueued rnd s = s" by (simp add: dealQueued_def)
  with inv show ?thesis by simp
next
  case (Inr r)
  then obtain nextDeck dealt nextDealer where
    deal: "dealInitial rnd (deck s) (reservedPlayers (players s)) = Inr (nextDeck, dealt, nextDealer)"
    by (metis prod_cases3)
  have valid: "\<not> invalidBets (players s)"
  proof
    assume "invalidBets (players s)"
    then have "\<exists>s'. handleDeal rnd s = Inr s'" by (simp add: handleDeal_def)
    with run show False by simp
  qed
  have none: "nextActiveIndex dealt (- 1) = - 1"
  proof (rule ccontr)
    assume "nextActiveIndex dealt (- 1) \<noteq> - 1"
    with handleDeal_dealt [OF valid deal] have "\<exists>s'. handleDeal rnd s = Inr s'"
      by (simp add: Let_def)
    with run show False by simp
  qed
  then have "noneActive dealt" by (simp add: nextActiveIndex_first_none noneActive_nth)
  then have "noneActive (take (currentIndex s) dealt)" by (rule noneActive_take)
  moreover from deal have "phase (dealQueued rnd s) = Playing"
    "players (dealQueued rnd s) = dealt" "currentIndex (dealQueued rnd s) = currentIndex s"
    by (simp_all add: dealQueued_def Let_def)
  ultimately show ?thesis by (simp add: turnInv_def)
qed

lemma commitStep_turnInv:
  assumes inv: "turnInv s"
  shows "turnInv (commitStep s a)"
proof (cases a)
  case DoLobbyStart
  then show ?thesis
    by (simp add: turnInv_def handleLobbyStart_def buildPlayers_def noneActive_def list_all_iff)
next
  case (DoSetPlayerCount n)
  with inv show ?thesis by (simp add: turnInv_def)
next
  case (DoBet b)
  with inv show ?thesis by (simp add: applyBet_turnInv)
next
  case (DoDeal rnd)
  show ?thesis
  proof (cases "handleDeal rnd s")
    case (Inl e)
    with inv have "turnInv (dealQueued rnd s)" by (blast intro: dealQueued_turnInv)
    with Inl DoDeal show ?thesis by (simp add: committed_def)
  next
    case (Inr s')
    with inv have "turnInv s'" by (blast intro: handleDeal_turnInv)
    with Inr DoDeal show ?thesis by (simp add: committed_def)
  qed
next
  case DoHit
  show ?thesis
  proof (cases "handleHit s")
    case (Inl e)
    have "currentIndex s < length (players s) \<and> status (players s ! currentIndex s) = Active"
    proof (rule ccontr)
      assume "\<not> (currentIndex s < length (players s)
                \<and> status (players s ! currentIndex s) = Active)"
      then have "handleHit s = Inr s" by (simp add: handleHit_def)
      with Inl show False by simp
    qed
    with inv have "turnInv (hitQueued s)" by (blast intro: hitQueued_turnInv)
    with Inl DoHit show ?thesis by (simp add: committed_def)
  next
    case (Inr s')
    with inv have "turnInv s'" by (blast intro: handleHit_turnInv)
    with Inr DoHit show ?thesis by (simp add: committed_def)
  qed
next
  case DoStand
  show ?thesis
  proof (cases "handleStand s")
    case (Inl e)
    from inv have "turnInv (standQueued s)" by (rule standQueued_turnInv)
    with Inl DoStand show ?thesis by (simp add: committed_def)
  next
    case (Inr s')
    with inv have "turnInv s'" by (blast intro: handleStand_turnInv)
    with Inr DoStand show ?thesis by (simp add: committed_def)
  qed
next
  case DoNextRound
  then show ?thesis
    by (simp add: turnInv_def handleNextRound_def noneActive_def list_all_iff)
qed

lemma uiRun_turnInv: "turnInv s \<Longrightarrow> uiRun s as = Some s' \<Longrightarrow> turnInv s'"
proof (induction as arbitrary: s)
  case Nil
  then show ?case by simp
next
  case (Cons a as)
  from Cons.prems(2) have "uiRun (commitStep s a) as = Some s'" by (simp split: if_splits)
  moreover from Cons.prems(1) have "turnInv (commitStep s a)" by (rule commitStep_turnInv)
  ultimately show ?case by (rule Cons.IH [rotated])
qed

lemma receivable_turnInv: "receivable s \<Longrightarrow> turnInv s"
proof -
  assume "receivable s"
  then obtain rnd as where run: "uiRun (firstRender rnd) as = Some s"
    by (auto simp: receivable_def)
  have "turnInv (firstRender rnd)"
    by (simp add: turnInv_def firstRender_def initialState_def noneActive_def)
  then show ?thesis using run by (rule uiRun_turnInv)
qed

text \<open>
  In every receivable state a hit outside the playing phase changes nothing: no seat is
  active there.
\<close>

theorem hit_noop_outside_turns:
  assumes "receivable s" "phase s \<noteq> Playing"
  shows "handleHit s = Inr s"
proof -
  from receivable_turnInv [OF assms(1)] assms(2) have "noneActive (players s)"
    by (simp add: turnInv_def)
  then have "\<not> currentIndex s < length (players s)
      \<or> status (players s ! currentIndex s) \<noteq> Active"
    by (auto simp: noneActive_nth)
  then show ?thesis by (rule handleHit_guard)
qed

theorem hit_noop_outside_turns_witness:
  "receivable seated \<and> phase seated \<noteq> Playing \<and> handleHit seated = Inr seated"
proof -
  have "uiRun (firstRender runRnd) [DoLobbyStart, DoBet (BetAdd 0 10)] = Some seated"
    by code_simp
  then have r: "receivable seated" unfolding receivable_def by blast
  have p: "phase seated \<noteq> Playing" by code_simp
  from hit_noop_outside_turns [OF r p] r p show ?thesis by blast
qed

subsection \<open>Round reset\<close>

text \<open>
  The next round resets every player's bet, hand, status and result, keeps the chips and
  the ids, empties the dealer, returns to betting and counts the round; pot and deck stay.
\<close>

theorem nextRound_reset:
  "phase (handleNextRound s) = Betting
   \<and> roundNo (handleNextRound s) = roundNo s + 1
   \<and> pot (handleNextRound s) = pot s
   \<and> deck (handleNextRound s) = deck s
   \<and> dealer (handleNextRound s) = \<lparr>dhand = [], hidden = True\<rparr>
   \<and> length (players (handleNextRound s)) = length (players s)
   \<and> (\<forall>i<length (players s).
         bet (players (handleNextRound s) ! i) = 0
       \<and> hand (players (handleNextRound s) ! i) = []
       \<and> status (players (handleNextRound s) ! i) = Idle
       \<and> result (players (handleNextRound s) ! i) = NoResult
       \<and> chips (players (handleNextRound s) ! i) = chips (players s ! i)
       \<and> pid (players (handleNextRound s) ! i) = pid (players s ! i))"
  by (simp add: handleNextRound_def emptyDealer_def)

theorem nextRound_reset_witness:
  "0 < length (players soloEnd)
   \<and> phase soloEnd = RoundEnd
   \<and> chips (players soloEnd ! 0) = 1150
   \<and> roundNo soloEnd = 1
   \<and> phase (handleNextRound soloEnd) = Betting
   \<and> roundNo (handleNextRound soloEnd) = 2
   \<and> bet (players (handleNextRound soloEnd) ! 0) = 0
   \<and> chips (players (handleNextRound soloEnd) ! 0) = 1150"
proof -
  have v: "0 < length (players soloEnd)" "phase soloEnd = RoundEnd"
    "chips (players soloEnd ! 0) = 1150" "roundNo soloEnd = 1"
    by code_simp+
  from nextRound_reset [of soloEnd] v(1)
  have "phase (handleNextRound soloEnd) = Betting"
    "roundNo (handleNextRound soloEnd) = roundNo soloEnd + 1"
    "bet (players (handleNextRound soloEnd) ! 0) = 0"
    "chips (players (handleNextRound soloEnd) ! 0) = chips (players soloEnd ! 0)"
    by blast+
  with v show ?thesis by simp
qed

end
